theory Spec2Isabelle
  imports Main "HOL-Library.Sublist"
begin

section \<open>Data model\<close>

text \<open>
  The substitution engine of \<^verbatim>\<open>make_agreem_dir_Gemini.py\<close> works on the objects of a
  document library that is not part of the repository. What the engine relies on is
  modelled as the library behaves. A paragraph is the ordered sequence of its runs; a run
  has a text and a formatting payload that the engine never reads. \<^verbatim>\<open>paragraph.runs\<close>
  builds a new proxy object for every run each time it is read; the texts are kept in the
  document, so a write through a proxy changes the text that every later read sees. A
  block owns its paragraphs and tables, and no paragraph is reachable twice.

  Texts are \<^typ>\<open>string\<close>s (the engine only concatenates, measures, searches and slices
  them), the token map is the list of the dictionary's items in iteration order, and the
  values are strings, on which \<^verbatim>\<open>str(value)\<close> is the identity.
\<close>

record 'f run =
  run_text :: string
  run_fmt :: 'f

type_synonym 'f para = "'f run list"

text \<open>
  The body of the \<^verbatim>\<open>for\<close> loop of \<^verbatim>\<open>_replace_in_paragraph\<close> reads \<^verbatim>\<open>paragraph.runs\<close> in its
  first inner loop (line 110) and again in its second inner loop (line 124). A proxy is
  identified by the read that built it and the position of its run; the test \<^verbatim>\<open>is\<close> of
  the source is the equality of proxies.
\<close>

datatype read = First_loop | Second_loop

type_synonym proxy = "read \<times> nat"

type_synonym placeholders = "(string \<times> string) list"

text \<open>
  A block is anything with \<^verbatim>\<open>paragraphs\<close> and \<^verbatim>\<open>tables\<close>: the document body, a table
  cell, a header, a footer. A table is the list of its rows, a row the list of its
  cells, a cell is a block again.
\<close>

datatype 'f block =
  Block (paragraphs: "'f para list") (tables: "'f block list list list")

record 'f sect =
  header :: "'f block"
  footer :: "'f block"

record 'f document =
  body :: "'f block"
  sections :: "'f sect list"


section \<open>Strings\<close>

text \<open>\<^verbatim>\<open>"".join(run.text for run in paragraph.runs)\<close>\<close>

definition full_text :: "'f para \<Rightarrow> string" where
  "full_text runs = concat (map run_text runs)"

text \<open>
  \<^verbatim>\<open>s.find(key)\<close>: the lowest index at which \<^verbatim>\<open>key\<close> starts in \<^verbatim>\<open>s\<close>; \<open>None\<close> stands for the
  result \<^verbatim>\<open>-1\<close>. The empty key is found at index 0 of every string.
\<close>

fun str_find :: "string \<Rightarrow> string \<Rightarrow> nat option" where
  "str_find [] key = (if key = [] then Some 0 else None)"
| "str_find (c # s) key =
     (if prefix key (c # s) then Some 0 else map_option Suc (str_find s key))"

text \<open>
  The slices \<^verbatim>\<open>s[:n]\<close> and \<^verbatim>\<open>s[n:]\<close> for an integer \<^verbatim>\<open>n\<close>: a negative bound counts from
  the end of the string.
\<close>

definition slice_to :: "string \<Rightarrow> int \<Rightarrow> string" where
  "slice_to s n = (if 0 \<le> n then take (nat n) s else take (nat (int (length s) + n)) s)"

definition slice_from :: "string \<Rightarrow> int \<Rightarrow> string" where
  "slice_from s n = (if 0 \<le> n then drop (nat n) s else drop (nat (int (length s) + n)) s)"


section \<open>One paragraph\<close>

text \<open>
  The first inner loop of \<^verbatim>\<open>_replace_in_paragraph\<close> collects the runs that overlap
  \<^verbatim>\<open>[start_index, end_index)\<close>, as the proxies that this read of \<^verbatim>\<open>paragraph.runs\<close> built.
  \<open>i\<close> is the position of the head of the list in the paragraph, \<open>current_pos\<close> the
  offset of its text.
\<close>

fun collect_runs :: "'f para \<Rightarrow> nat \<Rightarrow> nat \<Rightarrow> nat \<Rightarrow> nat \<Rightarrow> proxy list" where
  "collect_runs [] i current_pos start_index end_index = []"
| "collect_runs (r # rs) i current_pos start_index end_index =
     (let run_len = length (run_text r) in
        (if start_index < current_pos + run_len \<and> current_pos < end_index
         then [(First_loop, i)] else [])
        @ collect_runs rs (Suc i) (current_pos + run_len) start_index end_index)"

definition runs_to_modify :: "'f para \<Rightarrow> nat \<Rightarrow> nat \<Rightarrow> proxy list" where
  "runs_to_modify runs start_index end_index = collect_runs runs 0 0 start_index end_index"

text \<open>
  The second inner loop is to compute \<^verbatim>\<open>prefix\<close> and \<^verbatim>\<open>suffix\<close> and to leave at the last
  run. Both start as the empty string. The loop reads \<^verbatim>\<open>paragraph.runs\<close> anew and tests its
  proxies against \<^verbatim>\<open>first_run\<close> and \<^verbatim>\<open>last_run\<close> with \<^verbatim>\<open>is\<close>.
\<close>

fun scan_prefix_suffix ::
  "'f para \<Rightarrow> nat \<Rightarrow> nat \<Rightarrow> proxy \<Rightarrow> proxy \<Rightarrow> nat \<Rightarrow> nat \<Rightarrow> string \<times> string \<Rightarrow> string \<times> string"
where
  "scan_prefix_suffix [] i current_pos first_run last_run start_index end_index ps = ps"
| "scan_prefix_suffix (r # rs) i current_pos first_run last_run start_index end_index (pre, suf) =
     (let pre' = (if (Second_loop, i) = first_run
                  then slice_to (run_text r) (int start_index - int current_pos) else pre)
      in if (Second_loop, i) = last_run
         then (pre', slice_from (run_text r) (int end_index - int current_pos))
         else scan_prefix_suffix rs (Suc i) (current_pos + length (run_text r))
                first_run last_run start_index end_index (pre', suf))"

definition prefix_suffix :: "'f para \<Rightarrow> proxy \<Rightarrow> proxy \<Rightarrow> nat \<Rightarrow> nat \<Rightarrow> string \<times> string" where
  "prefix_suffix runs first_run last_run start_index end_index =
     scan_prefix_suffix runs 0 0 first_run last_run start_index end_index ([], [])"

text \<open>\<^verbatim>\<open>run.text = t\<close> through the proxy \<open>p\<close>: the run at its position gets the text.\<close>

definition set_text :: "'f para \<Rightarrow> proxy \<Rightarrow> string \<Rightarrow> 'f para" where
  "set_text runs p t = runs[snd p := (runs ! snd p)\<lparr>run_text := t\<rparr>]"

text \<open>
  Lines 119 to 140: the rewriting of the collected runs \<open>rtm\<close> (not empty) for the
  occurrence \<^verbatim>\<open>[start_index, end_index)\<close> and the replacement \<open>val\<close>.
\<close>

definition rewrite_runs :: "'f para \<Rightarrow> proxy list \<Rightarrow> nat \<Rightarrow> nat \<Rightarrow> string \<Rightarrow> 'f para" where
  "rewrite_runs runs rtm start_index end_index val =
     (let first_run = hd rtm;
          last_run = last rtm;
          (pre, suf) = prefix_suffix runs first_run last_run start_index end_index;
          runs1 = set_text runs first_run (pre @ val);
          runs2 = fold (\<lambda>r rs. set_text rs r []) (tl rtm) runs1
      in if first_run = last_run
         then set_text runs2 first_run (run_text (runs2 ! snd first_run) @ suf)
         else set_text runs2 last_run suf)"

text \<open>
  One pass of the \<^verbatim>\<open>for key, value in placeholders.items()\<close> loop: \<open>Some\<close> of the runs
  after the replacement when \<^verbatim>\<open>replaced\<close> is set, \<open>None\<close> when the loop ends with
  \<^verbatim>\<open>replaced = False\<close> (and nothing has been written).
\<close>

fun replace_pass :: "'f para \<Rightarrow> placeholders \<Rightarrow> 'f para option" where
  "replace_pass runs [] = None"
| "replace_pass runs ((key, val) # rest) =
     (case str_find (full_text runs) key of
        None \<Rightarrow> replace_pass runs rest
      | Some start_index \<Rightarrow>
          (let end_index = start_index + length key;
               rtm = runs_to_modify runs start_index end_index
           in if rtm = [] then replace_pass runs rest
              else Some (rewrite_runs runs rtm start_index end_index val)))"

text \<open>
  The \<^verbatim>\<open>while True\<close> loop. It may run forever, so the result is an option: \<open>None\<close> when
  the loop does not end.
\<close>

partial_function (option) replace_in_paragraph ::
  "'f para \<Rightarrow> placeholders \<Rightarrow> 'f para option"
where
  "replace_in_paragraph runs ph =
     (case replace_pass runs ph of
        None \<Rightarrow> Some runs
      | Some runs' \<Rightarrow> replace_in_paragraph runs' ph)"

declare replace_in_paragraph.simps [code]


section \<open>Blocks and the document\<close>

text \<open>
  \<^verbatim>\<open>_replace_in_block\<close>: the paragraphs of the block first, then every cell of every row of
  every table. A paragraph whose loop does not end keeps the whole call from returning.
\<close>

fun replace_in_block :: "'f block \<Rightarrow> placeholders \<Rightarrow> 'f block option" where
  "replace_in_block (Block ps ts) ph =
     (case those (map (\<lambda>p. replace_in_paragraph p ph) ps) of
        None \<Rightarrow> None
      | Some ps' \<Rightarrow>
          (case those (map (\<lambda>table. those (map (\<lambda>row. those (map (\<lambda>cell.
                   replace_in_block cell ph) row)) table)) ts) of
             None \<Rightarrow> None
           | Some ts' \<Rightarrow> Some (Block ps' ts')))"

text \<open>\<^verbatim>\<open>replace_placeholders\<close>: the body, then the header and the footer of every section.\<close>

fun replace_in_sections :: "'f sect list \<Rightarrow> placeholders \<Rightarrow> 'f sect list option" where
  "replace_in_sections [] ph = Some []"
| "replace_in_sections (s # ss) ph =
     (case replace_in_block (header s) ph of
        None \<Rightarrow> None
      | Some h \<Rightarrow>
          (case replace_in_block (footer s) ph of
             None \<Rightarrow> None
           | Some f \<Rightarrow>
               (case replace_in_sections ss ph of
                  None \<Rightarrow> None
                | Some ss' \<Rightarrow> Some (s\<lparr>header := h, footer := f\<rparr> # ss'))))"

definition replace_placeholders :: "'f document \<Rightarrow> placeholders \<Rightarrow> 'f document option" where
  "replace_placeholders doc ph =
     (case replace_in_block (body doc) ph of
        None \<Rightarrow> None
      | Some b \<Rightarrow>
          (case replace_in_sections (sections doc) ph of
             None \<Rightarrow> None
           | Some ss \<Rightarrow> Some (doc\<lparr>body := b, sections := ss\<rparr>)))"


section \<open>Notions used in the statements\<close>

text \<open>The offset of run \<open>i\<close> in the concatenated text: the length of the text before it.\<close>

definition offset :: "'f para \<Rightarrow> nat \<Rightarrow> nat" where
  "offset runs i = length (full_text (take i runs))"

text \<open>
  The positions of the runs that the first inner loop collects (the second components of
  the proxies of \<open>collect_runs\<close> and \<open>runs_to_modify\<close>).
\<close>

fun overlap :: "'f para \<Rightarrow> nat \<Rightarrow> nat \<Rightarrow> nat \<Rightarrow> nat \<Rightarrow> nat list" where
  "overlap [] i cur s e = []"
| "overlap (r # rs) i cur s e =
     (if s < cur + length (run_text r) \<and> cur < e then [i] else [])
     @ overlap rs (Suc i) (cur + length (run_text r)) s e"

definition positions :: "'f para \<Rightarrow> nat \<Rightarrow> nat \<Rightarrow> nat list" where
  "positions runs s e = overlap runs 0 0 s e"

text \<open>
  What is left of a tree when every text is blanked: the shape of the tree, the number and
  order of the runs and their formatting payloads.
\<close>

definition erase_para :: "'f para \<Rightarrow> 'f para" where
  "erase_para runs = map (\<lambda>r. r\<lparr>run_text := []\<rparr>) runs"

fun erase_block :: "'f block \<Rightarrow> 'f block" where
  "erase_block (Block ps ts) = Block (map erase_para ps) (map (map (map erase_block)) ts)"

definition erase_sect :: "'f sect \<Rightarrow> 'f sect" where
  "erase_sect s = s\<lparr>header := erase_block (header s), footer := erase_block (footer s)\<rparr>"

definition erase_document :: "'f document \<Rightarrow> 'f document" where
  "erase_document doc =
     doc\<lparr>body := erase_block (body doc), sections := map erase_sect (sections doc)\<rparr>"

text \<open>
  The paragraphs reachable from a block (its own, then those of the cells of its tables,
  to any depth) and from a document (those of the body, then of each header and footer).
\<close>

fun block_paragraphs :: "'f block \<Rightarrow> 'f para list" where
  "block_paragraphs (Block ps ts) =
     ps @ concat (map (\<lambda>table. concat (map (\<lambda>row. concat (map block_paragraphs row)) table)) ts)"

definition document_paragraphs :: "'f document \<Rightarrow> 'f para list" where
  "document_paragraphs doc =
     block_paragraphs (body doc)
     @ concat (map (\<lambda>s. block_paragraphs (header s) @ block_paragraphs (footer s)) (sections doc))"


text \<open>A key is passed over by the scan when it is empty or does not occur in the text.\<close>

definition skipped :: "string \<Rightarrow> string \<times> string \<Rightarrow> bool" where
  "skipped s kv = (fst kv = [] \<or> str_find s (fst kv) = None)"


text \<open>
  A measure of what the loop still has to do: the number of runs with a text, plus the
  number of runs whose own text holds a non-empty key of the map.
\<close>

definition holds_key :: "placeholders \<Rightarrow> 'f run \<Rightarrow> bool" where
  "holds_key ph r = (\<exists>kv \<in> set ph. fst kv \<noteq> [] \<and> str_find (run_text r) (fst kv) \<noteq> None)"

definition run_pending :: "placeholders \<Rightarrow> 'f run \<Rightarrow> nat" where
  "run_pending ph r = (if run_text r \<noteq> [] then 1 else 0) + (if holds_key ph r then 1 else 0)"

definition pending :: "placeholders \<Rightarrow> 'f para \<Rightarrow> nat" where
  "pending ph runs = sum_list (map (run_pending ph) runs)"


section \<open>Example inputs\<close>

text \<open>
  A document with a token split over two runs in the body, a table in a cell of a table
  with a token in the innermost cell, and tokens in a header and a footer; and the same
  document after the substitution of \<open>example_map\<close>.
\<close>

definition example_map :: placeholders where
  "example_map = [(''{{N}}'', ''7'')]"

definition example_document :: "nat document" where
  "example_document =
     \<lparr>body = Block [[\<lparr>run_text = ''{{'', run_fmt = 1\<rparr>, \<lparr>run_text = ''N}}'', run_fmt = 2\<rparr>]]
               [[[Block [] [[[Block [[\<lparr>run_text = ''{{N}}'', run_fmt = 3\<rparr>]] []]]]]]],
      sections = [\<lparr>header = Block [[\<lparr>run_text = ''H '', run_fmt = 4\<rparr>,
                                     \<lparr>run_text = ''{{N}}'', run_fmt = 5\<rparr>]] [],
                   footer = Block [[\<lparr>run_text = ''F '', run_fmt = 6\<rparr>,
                                     \<lparr>run_text = ''{{N}}'', run_fmt = 7\<rparr>]] []\<rparr>]\<rparr>"

definition example_result :: "nat document" where
  "example_result =
     \<lparr>body = Block [[\<lparr>run_text = ''7'', run_fmt = 1\<rparr>, \<lparr>run_text = [], run_fmt = 2\<rparr>]]
               [[[Block [] [[[Block [[\<lparr>run_text = ''7'', run_fmt = 3\<rparr>]] []]]]]]],
      sections = [\<lparr>header = Block [[\<lparr>run_text = ''H '', run_fmt = 4\<rparr>,
                                     \<lparr>run_text = ''7'', run_fmt = 5\<rparr>]] [],
                   footer = Block [[\<lparr>run_text = ''F '', run_fmt = 6\<rparr>,
                                     \<lparr>run_text = ''7'', run_fmt = 7\<rparr>]] []\<rparr>]\<rparr>"


section \<open>Substring search\<close>

lemma str_find_SomeD:
  "str_find s k = Some i \<Longrightarrow>
     i + length k \<le> length s \<and> prefix k (drop i s) \<and> (\<forall>j<i. \<not> prefix k (drop j s))"
proof (induction s arbitrary: i)
  case Nil
  then show ?case by (simp split: if_splits)
next
  case (Cons c s)
  show ?case
  proof (cases "prefix k (c # s)")
    case True
    with Cons.prems have "i = 0" by simp
    with True prefix_length_le [OF True] show ?thesis by simp
  next
    case False
    with Cons.prems obtain i' where i': "str_find s k = Some i'" "i = Suc i'" by auto
    from Cons.IH [OF i'(1)] have ih:
      "i' + length k \<le> length s" "prefix k (drop i' s)" "\<forall>j<i'. \<not> prefix k (drop j s)"
      by simp_all
    have "\<not> prefix k (drop j (c # s))" if "j < i" for j
    proof (cases j)
      case 0
      with False show ?thesis by simp
    next
      case (Suc j')
      with that i'(2) ih(3) show ?thesis by simp
    qed
    with ih i'(2) show ?thesis by simp
  qed
qed

lemma str_find_NoneD: "str_find s k = None \<Longrightarrow> \<not> prefix k (drop j s)"
proof (induction s arbitrary: j)
  case Nil
  then show ?case by (simp split: if_splits)
next
  case (Cons c s)
  from Cons.prems have np: "\<not> prefix k (c # s)" and rest: "str_find s k = None"
    by (simp_all split: if_splits)
  show ?case
  proof (cases j)
    case 0
    with np show ?thesis by simp
  next
    case (Suc j')
    with Cons.IH [OF rest] show ?thesis by simp
  qed
qed

lemma str_find_empty_key: "str_find s [] = Some 0"
  by (cases s) simp_all

lemma str_find_occurs:
  "prefix k (drop j s) \<Longrightarrow> \<exists>i. str_find s k = Some i"
  using str_find_NoneD [of s k j] by (cases "str_find s k") auto

lemma str_find_split:
  assumes "str_find s k = Some i"
  shows "s = take i s @ k @ drop (i + length k) s"
proof -
  from str_find_SomeD [OF assms] have "prefix k (drop i s)" by simp
  then obtain r where r: "drop i s = k @ r" by (auto simp: prefix_def)
  then have "drop (length k) (drop i s) = r" by simp
  then have "r = drop (i + length k) s" by (simp add: add.commute)
  with r have "drop i s = k @ drop (i + length k) s" by simp
  then have "take i s @ drop i s = take i s @ k @ drop (i + length k) s" by simp
  then show ?thesis by simp
qed

section \<open>Offsets and the collected runs\<close>

lemma offset_0 [simp]: "offset runs 0 = 0"
  by (simp add: offset_def full_text_def)

lemma offset_Cons_Suc [simp]: "offset (r # rs) (Suc j) = length (run_text r) + offset rs j"
  by (simp add: offset_def full_text_def)

lemma offset_Suc: "i < length runs \<Longrightarrow> offset runs (Suc i) = offset runs i + length (run_text (runs ! i))"
  by (simp add: offset_def full_text_def take_Suc_conv_app_nth)

lemma offset_mono: "i \<le> j \<Longrightarrow> offset runs i \<le> offset runs j"
proof (induction runs arbitrary: i j)
  case Nil
  then show ?case by (simp add: offset_def)
next
  case (Cons r rs)
  show ?case
  proof (cases i)
    case 0
    then show ?thesis by simp
  next
    case (Suc i')
    with Cons.prems obtain j' where "j = Suc j'" "i' \<le> j'" by (cases j) auto
    with Suc Cons.IH [of i' j'] show ?thesis by simp
  qed
qed

lemma offset_next_le: "i < j \<Longrightarrow> i < length runs \<Longrightarrow>
    offset runs i + length (run_text (runs ! i)) \<le> offset runs j"
  using offset_mono [of "Suc i" j runs] by (simp add: offset_Suc)

lemma overlap_set:
  "set (overlap rs i cur s e) =
     {i + j | j. j < length rs \<and> s < cur + offset rs j + length (run_text (rs ! j))
                 \<and> cur + offset rs j < e}"
proof (induction rs arbitrary: i cur)
  case Nil
  then show ?case by simp
next
  case (Cons r rs)
  have "{i + j | j. j < length (r # rs) \<and> s < cur + offset (r # rs) j + length (run_text ((r # rs) ! j))
                 \<and> cur + offset (r # rs) j < e}
      = (if s < cur + length (run_text r) \<and> cur < e then {i} else {})
        \<union> {Suc i + j | j. j < length rs \<and>
              s < (cur + length (run_text r)) + offset rs j + length (run_text (rs ! j))
              \<and> (cur + length (run_text r)) + offset rs j < e}" (is "?L = ?R")
  proof (intro set_eqI iffI)
    fix x assume "x \<in> ?L"
    then obtain j where j: "x = i + j" "j < length (r # rs)"
      "s < cur + offset (r # rs) j + length (run_text ((r # rs) ! j))" "cur + offset (r # rs) j < e"
      by auto
    show "x \<in> ?R"
    proof (cases j)
      case 0
      with j show ?thesis by simp
    next
      case (Suc j')
      with j have "x = Suc i + j' \<and> j' < length rs \<and>
              s < (cur + length (run_text r)) + offset rs j' + length (run_text (rs ! j'))
              \<and> (cur + length (run_text r)) + offset rs j' < e" by (simp add: add.assoc)
      then show ?thesis by blast
    qed
  next
    fix x assume "x \<in> ?R"
    then consider "x = i" "s < cur + length (run_text r)" "cur < e"
      | j where "x = Suc i + j" "j < length rs"
          "s < (cur + length (run_text r)) + offset rs j + length (run_text (rs ! j))"
          "(cur + length (run_text r)) + offset rs j < e"
      by (auto split: if_splits)
    then show "x \<in> ?L"
    proof cases
      case 1
      then have "x = i + 0 \<and> 0 < length (r # rs) \<and>
          s < cur + offset (r # rs) 0 + length (run_text ((r # rs) ! 0)) \<and> cur + offset (r # rs) 0 < e"
        by simp
      then show ?thesis by blast
    next
      case 2
      then have "x = i + Suc j \<and> Suc j < length (r # rs) \<and>
          s < cur + offset (r # rs) (Suc j) + length (run_text ((r # rs) ! Suc j))
          \<and> cur + offset (r # rs) (Suc j) < e"
        by (simp add: add.assoc)
      then show ?thesis by blast
    qed
  qed
  moreover have "set (overlap (r # rs) i cur s e) = ?R"
    by (auto simp: Cons.IH Let_def)
  ultimately show ?case by (rule ssubst)
qed

lemma overlap_ge: "x \<in> set (overlap rs i cur s e) \<Longrightarrow> i \<le> x"
  by (auto simp: overlap_set)

lemma overlap_sorted: "sorted (overlap rs i cur s e) \<and> distinct (overlap rs i cur s e)"
proof (induction rs arbitrary: i cur)
  case Nil
  then show ?case by simp
next
  case (Cons r rs)
  have "\<forall>x \<in> set (overlap rs (Suc i) (cur + length (run_text r)) s e). i < x"
    using overlap_ge [of _ rs "Suc i"] by fastforce
  with Cons.IH [of "Suc i" "cur + length (run_text r)"] show ?case
    by (auto simp: Let_def sorted_append)
qed

lemma collect_runs_overlap:
  "collect_runs rs i cur s e = map (Pair First_loop) (overlap rs i cur s e)"
  by (induction rs arbitrary: i cur) (simp_all add: Let_def)

lemma runs_to_modify_positions:
  "runs_to_modify runs s e = map (Pair First_loop) (positions runs s e)"
  by (simp add: runs_to_modify_def positions_def collect_runs_overlap)

lemma positions_set:
  "set (positions runs s e) =
     {i. i < length runs \<and> s < offset runs i + length (run_text (runs ! i)) \<and> offset runs i < e}"
  by (simp add: positions_def overlap_set)

lemma positions_sorted:
  "sorted (positions runs s e)" "distinct (positions runs s e)"
  by (simp_all add: positions_def overlap_sorted)

lemma positions_empty_range: "positions runs s 0 = []"
proof -
  have "set (positions runs s 0) = {}" by (simp add: positions_set)
  then show ?thesis by simp
qed

text \<open>Some run holds the character at position \<open>k\<close> of the text.\<close>

lemma run_at_position:
  "k < length (full_text runs) \<Longrightarrow>
     \<exists>i<length runs. offset runs i \<le> k \<and> k < offset runs i + length (run_text (runs ! i))"
proof (induction runs arbitrary: k)
  case Nil
  then show ?case by (simp add: full_text_def)
next
  case (Cons r rs)
  show ?case
  proof (cases "k < length (run_text r)")
    case True
    then have "0 < length (r # rs) \<and> offset (r # rs) 0 \<le> k
        \<and> k < offset (r # rs) 0 + length (run_text ((r # rs) ! 0))" by simp
    then show ?thesis by blast
  next
    case False
    with Cons.prems have "k - length (run_text r) < length (full_text rs)"
      by (simp add: full_text_def)
    from Cons.IH [OF this] obtain i where i: "i < length rs"
      "offset rs i \<le> k - length (run_text r)"
      "k - length (run_text r) < offset rs i + length (run_text (rs ! i))" by blast
    with False have "Suc i < length (r # rs) \<and> offset (r # rs) (Suc i) \<le> k
        \<and> k < offset (r # rs) (Suc i) + length (run_text ((r # rs) ! Suc i))"
      by simp arith
    then show ?thesis by blast
  qed
qed

section \<open>The interval of collected runs\<close>

lemma sorted_hd_le: "sorted xs \<Longrightarrow> x \<in> set xs \<Longrightarrow> hd xs \<le> (x::nat)"
  by (cases xs) auto

lemma sorted_le_last: "sorted xs \<Longrightarrow> x \<in> set xs \<Longrightarrow> (x::nat) \<le> last xs"
  by (induction xs) (auto split: if_splits)

lemma distinct_hd_notin_tl: "distinct xs \<Longrightarrow> xs \<noteq> [] \<Longrightarrow> hd xs \<notin> set (tl xs)"
  by (cases xs) auto

lemma positions_nonempty:
  assumes "s < e" "e \<le> length (full_text runs)"
  shows "positions runs s e \<noteq> []"
proof -
  from assms have "s < length (full_text runs)" by simp
  from run_at_position [OF this] obtain i where
    "i < length runs" "offset runs i \<le> s" "s < offset runs i + length (run_text (runs ! i))"
    by blast
  with assms(1) have "i \<in> set (positions runs s e)" by (simp add: positions_set)
  then show ?thesis by auto
qed

lemma positions_hd:
  assumes "s < e" "e \<le> length (full_text runs)"
  shows "hd (positions runs s e) < length runs"
    and "offset runs (hd (positions runs s e)) \<le> s"
    and "s < offset runs (hd (positions runs s e))
             + length (run_text (runs ! hd (positions runs s e)))"
proof -
  let ?rtm = "positions runs s e"
  have ne: "?rtm \<noteq> []" by (rule positions_nonempty [OF assms])
  then have "hd ?rtm \<in> set ?rtm" by simp
  then show "hd ?rtm < length runs"
    and "s < offset runs (hd ?rtm) + length (run_text (runs ! hd ?rtm))"
    by (simp_all add: positions_set)
  from assms have "s < length (full_text runs)" by simp
  from run_at_position [OF this] obtain i where i:
    "i < length runs" "offset runs i \<le> s" "s < offset runs i + length (run_text (runs ! i))"
    by blast
  with assms(1) have "i \<in> set ?rtm" by (simp add: positions_set)
  then have "hd ?rtm \<le> i" by (rule sorted_hd_le [OF positions_sorted(1)])
  from offset_mono [OF this, of runs] i(2) show "offset runs (hd ?rtm) \<le> s" by simp
qed

lemma positions_last:
  assumes "s < e" "e \<le> length (full_text runs)"
  shows "last (positions runs s e) < length runs"
    and "offset runs (last (positions runs s e)) < e"
    and "e \<le> offset runs (last (positions runs s e))
             + length (run_text (runs ! last (positions runs s e)))"
proof -
  let ?rtm = "positions runs s e"
  have ne: "?rtm \<noteq> []" by (rule positions_nonempty [OF assms])
  then have "last ?rtm \<in> set ?rtm" by simp
  then show l: "last ?rtm < length runs" and lt: "offset runs (last ?rtm) < e"
    by (simp_all add: positions_set)
  from assms have "e - 1 < length (full_text runs)" by simp
  from run_at_position [OF this] obtain j where j:
    "j < length runs" "offset runs j \<le> e - 1" "e - 1 < offset runs j + length (run_text (runs ! j))"
    by blast
  with assms(1) have "j \<in> set ?rtm" by (simp add: positions_set) arith
  then have le: "j \<le> last ?rtm" by (rule sorted_le_last [OF positions_sorted(1)])
  show "e \<le> offset runs (last ?rtm) + length (run_text (runs ! last ?rtm))"
  proof (cases "j = last ?rtm")
    case True
    with j(3) show ?thesis by simp
  next
    case False
    with le have "j < last ?rtm" by simp
    from offset_next_le [OF this j(1)] j(3) lt show ?thesis by simp
  qed
qed

lemma positions_interval:
  assumes "s < e" "e \<le> length (full_text runs)"
  shows "set (positions runs s e)
           = {hd (positions runs s e) .. last (positions runs s e)}"
proof (intro set_eqI iffI)
  let ?rtm = "positions runs s e"
  fix i assume "i \<in> set ?rtm"
  with sorted_hd_le [OF positions_sorted(1), of i runs s e]
    sorted_le_last [OF positions_sorted(1), of i runs s e]
  show "i \<in> {hd ?rtm .. last ?rtm}" by simp
next
  let ?rtm = "positions runs s e"
  fix i assume "i \<in> {hd ?rtm .. last ?rtm}"
  then have b: "hd ?rtm \<le> i" "i \<le> last ?rtm" by simp_all
  note h = positions_hd [OF assms] and l = positions_last [OF assms]
  from b(2) l(1) have len: "i < length runs" by simp
  from offset_mono [OF b(1), of runs] h(2) have "offset runs (hd ?rtm) \<le> offset runs i" by simp
  have lo: "s < offset runs i + length (run_text (runs ! i))"
  proof (cases "i = hd ?rtm")
    case True
    with h(3) show ?thesis by simp
  next
    case False
    with b(1) have "hd ?rtm < i" by simp
    from offset_next_le [OF this h(1)] h(3) show ?thesis by simp
  qed
  from offset_mono [OF b(2), of runs] l(2) have "offset runs i < e" by simp
  with len lo show "i \<in> set ?rtm" by (simp add: positions_set)
qed

lemma positions_tl:
  assumes "s < e" "e \<le> length (full_text runs)"
  shows "set (tl (positions runs s e))
           = {hd (positions runs s e) <.. last (positions runs s e)}"
proof -
  let ?rtm = "positions runs s e"
  have ne: "?rtm \<noteq> []" by (rule positions_nonempty [OF assms])
  then have "set ?rtm = insert (hd ?rtm) (set (tl ?rtm))" by (cases ?rtm) auto
  moreover have "hd ?rtm \<notin> set (tl ?rtm)"
    by (rule distinct_hd_notin_tl [OF positions_sorted(2) ne])
  ultimately have "set (tl ?rtm) = set ?rtm - {hd ?rtm}" by auto
  also have "\<dots> = {hd ?rtm <.. last ?rtm}"
    by (auto simp: positions_interval [OF assms])
  finally show ?thesis .
qed


section \<open>The rewriting of the collected runs\<close>

text \<open>
  The proxies of the second inner loop are new objects: none of them is \<open>first_run\<close> or
  \<open>last_run\<close>, which the first inner loop collected. So \<open>prefix\<close> and \<open>suffix\<close> stay empty.
\<close>

lemma scan_prefix_suffix_fresh:
  "fst first_run = First_loop \<Longrightarrow> fst last_run = First_loop \<Longrightarrow>
     scan_prefix_suffix rs i cur first_run last_run s e (p, q) = (p, q)"
proof (induction rs arbitrary: i cur)
  case Nil
  then show ?case by simp
next
  case (Cons r rs)
  from Cons.prems have "(Second_loop, i) \<noteq> first_run" "(Second_loop, i) \<noteq> last_run" by auto
  with Cons show ?case by simp
qed

lemma prefix_suffix_fresh:
  "prefix_suffix runs (First_loop, f) (First_loop, l) s e = ([], [])"
  by (simp add: prefix_suffix_def scan_prefix_suffix_fresh)

lemma length_set_text [simp]: "length (set_text runs p t) = length runs"
  by (simp add: set_text_def)

lemma nth_set_text:
  "j < length runs \<Longrightarrow>
     set_text runs p t ! j = (if j = snd p then (runs ! snd p)\<lparr>run_text := t\<rparr> else runs ! j)"
  by (simp add: set_text_def)

lemma length_fold_set_text [simp]:
  "length (fold (\<lambda>r rs. set_text rs r []) ps runs) = length runs"
  by (induction ps arbitrary: runs) simp_all

lemma nth_fold_set_text:
  "j < length runs \<Longrightarrow>
     fold (\<lambda>r rs. set_text rs r []) ps runs ! j
       = (if j \<in> snd ` set ps then (runs ! j)\<lparr>run_text := []\<rparr> else runs ! j)"
proof (induction ps arbitrary: runs)
  case Nil
  then show ?case by simp
next
  case (Cons x xs)
  then show ?case by (simp add: nth_set_text)
qed

lemma length_rewrite_runs [simp]: "length (rewrite_runs runs rtm s e v) = length runs"
  by (simp add: rewrite_runs_def Let_def split: prod.splits)

lemma positions_hd_le_last:
  assumes "s < e" "e \<le> length (full_text runs)"
  shows "hd (positions runs s e) \<le> last (positions runs s e)"
proof -
  have "positions runs s e \<noteq> []" by (rule positions_nonempty [OF assms])
  then have "hd (positions runs s e) \<in> set (positions runs s e)" by simp
  then show ?thesis by (rule sorted_le_last [OF positions_sorted(1)])
qed


text \<open>
  The run at position \<open>i\<close> after the rewriting of the occurrence \<open>[s, e)\<close>: the first
  collected run holds the value alone, the other collected runs are empty.
\<close>

lemma rewrite_runs_nth:
  assumes "s < e" "e \<le> length (full_text runs)" "i < length runs"
    and f: "f = hd (positions runs s e)" and l: "l = last (positions runs s e)"
  shows "rewrite_runs runs (runs_to_modify runs s e) s e v ! i =
     (runs ! i)\<lparr>run_text :=
        (if i = f then v else if f < i \<and> i \<le> l then [] else run_text (runs ! i))\<rparr>"
proof -
  let ?pos = "positions runs s e"
  let ?rtm = "runs_to_modify runs s e"
  have rtm: "?rtm = map (Pair First_loop) ?pos" by (rule runs_to_modify_positions)
  have ne: "?pos \<noteq> []" by (rule positions_nonempty [OF assms(1,2)])
  have hd: "hd ?rtm = (First_loop, f)" and la: "last ?rtm = (First_loop, l)"
    using ne by (simp_all add: rtm hd_map last_map f l)
  have tl: "snd ` set (tl ?rtm) = {f <.. l}"
  proof -
    have "tl ?rtm = map (Pair First_loop) (tl ?pos)" by (simp add: rtm map_tl)
    then have "snd ` set (tl ?rtm) = set (tl ?pos)" by (simp add: image_image)
    then show ?thesis unfolding f l by (simp add: positions_tl [OF assms(1,2)])
  qed
  note h = positions_hd [OF assms(1,2), folded f] and ll = positions_last [OF assms(1,2), folded l]
  have fl: "f \<le> l" unfolding f l by (rule positions_hd_le_last [OF assms(1,2)])
  let ?runs1 = "set_text runs (First_loop, f) v"
  let ?runs2 = "fold (\<lambda>r rs. set_text rs r []) (tl ?rtm) ?runs1"
  have r2: "?runs2 ! j = (if f < j \<and> j \<le> l then (runs ! j)\<lparr>run_text := []\<rparr>
      else if j = f then (runs ! f)\<lparr>run_text := v\<rparr> else runs ! j)"
    if "j < length runs" for j
    using that by (simp add: nth_fold_set_text nth_set_text tl)
  have r2f: "?runs2 ! f = (runs ! f)\<lparr>run_text := v\<rparr>"
    using h(1) by (simp add: r2)
  have r2i: "?runs2 ! i = (if f < i \<and> i \<le> l then (runs ! i)\<lparr>run_text := []\<rparr>
      else if i = f then (runs ! f)\<lparr>run_text := v\<rparr> else runs ! i)"
    by (rule r2 [OF assms(3)])
  have len2: "i < length ?runs2" using assms(3) by simp
  have res: "rewrite_runs runs ?rtm s e v =
      (if f = l then set_text ?runs2 (First_loop, f) (run_text (?runs2 ! f) @ [])
       else set_text ?runs2 (First_loop, l) [])"
    by (simp add: rewrite_runs_def Let_def hd la prefix_suffix_fresh)
  show ?thesis
  proof (cases "f = l")
    case True
    then have "rewrite_runs runs ?rtm s e v ! i
        = set_text ?runs2 (First_loop, f) (run_text (?runs2 ! f) @ []) ! i"
      by (simp add: res)
    also have "\<dots> = (if i = f then (?runs2 ! f)\<lparr>run_text := run_text (?runs2 ! f) @ []\<rparr>
        else ?runs2 ! i)"
      using nth_set_text [OF len2, of "(First_loop, f)"] by simp
    also have "\<dots> = (if i = f then (runs ! f)\<lparr>run_text := v\<rparr>
        else if f < i \<and> i \<le> l then (runs ! i)\<lparr>run_text := []\<rparr> else runs ! i)"
      unfolding r2f r2i by simp
    finally show ?thesis using True by auto
  next
    case False
    with fl have lt: "f < l" by simp
    from False have "rewrite_runs runs ?rtm s e v ! i = set_text ?runs2 (First_loop, l) [] ! i"
      by (simp add: res)
    also have "\<dots> = (if i = l then (?runs2 ! l)\<lparr>run_text := []\<rparr> else ?runs2 ! i)"
      using nth_set_text [OF len2, of "(First_loop, l)"] by simp
    also have "?runs2 ! l = (runs ! l)\<lparr>run_text := []\<rparr>"
      using ll(1) lt by (simp add: r2)
    finally show ?thesis using lt False unfolding r2i by auto
  qed
qed

lemma take_full_text:
  assumes "i < length runs" "offset runs i \<le> k" "k \<le> offset runs i + length (run_text (runs ! i))"
  shows "take k (full_text runs) = full_text (take i runs) @ take (k - offset runs i) (run_text (runs ! i))"
proof -
  have "runs = take i runs @ runs ! i # drop (Suc i) runs"
    using assms(1) by (rule id_take_nth_drop)
  then have "full_text runs
      = full_text (take i runs) @ run_text (runs ! i) @ full_text (drop (Suc i) runs)"
    unfolding full_text_def by (metis concat.simps(2) concat_append list.simps(9) map_append)
  then show ?thesis using assms(2,3) by (simp add: offset_def)
qed

lemma drop_full_text:
  assumes "i < length runs" "offset runs i \<le> k" "k \<le> offset runs i + length (run_text (runs ! i))"
  shows "drop k (full_text runs) = drop (k - offset runs i) (run_text (runs ! i)) @ full_text (drop (Suc i) runs)"
proof -
  have "runs = take i runs @ runs ! i # drop (Suc i) runs"
    using assms(1) by (rule id_take_nth_drop)
  then have "full_text runs
      = full_text (take i runs) @ run_text (runs ! i) @ full_text (drop (Suc i) runs)"
    unfolding full_text_def by (metis concat.simps(2) concat_append list.simps(9) map_append)
  then show ?thesis using assms(2,3) by (simp add: offset_def)
qed

lemma full_text_nth: "full_text runs = concat (map (\<lambda>i. run_text (runs ! i)) [0..<length runs])"
proof -
  have "map (\<lambda>i. run_text (runs ! i)) [0..<length runs] = map run_text runs"
    by (rule nth_equalityI) simp_all
  then show ?thesis by (simp add: full_text_def)
qed

lemma full_text_take_nth:
  "f \<le> length runs \<Longrightarrow> full_text (take f runs) = concat (map (\<lambda>i. run_text (runs ! i)) [0..<f])"
proof -
  assume "f \<le> length runs"
  then have "map (\<lambda>i. run_text (runs ! i)) [0..<f] = map run_text (take f runs)"
    by (intro nth_equalityI) simp_all
  then show ?thesis by (simp add: full_text_def)
qed

lemma full_text_drop_nth:
  "full_text (drop a runs) = concat (map (\<lambda>i. run_text (runs ! i)) [a..<length runs])"
proof -
  have "map (\<lambda>i. run_text (runs ! i)) [a..<length runs] = map run_text (drop a runs)"
    by (intro nth_equalityI) simp_all
  then show ?thesis by (simp add: full_text_def)
qed

lemma concat_map_empty: "(\<And>x. x \<in> set xs \<Longrightarrow> g x = []) \<Longrightarrow> concat (map g xs) = []"
  by (induction xs) simp_all


text \<open>
  The concatenation after the rewriting: the text of the runs before the first collected
  run, the value, the text of the runs after the last collected run.
\<close>

lemma full_text_rewrite_runs:
  assumes "s < e" "e \<le> length (full_text runs)"
  shows "full_text (rewrite_runs runs (runs_to_modify runs s e) s e v)
           = full_text (take (hd (positions runs s e)) runs) @ v
             @ full_text (drop (Suc (last (positions runs s e))) runs)"
proof -
  let ?res = "rewrite_runs runs (runs_to_modify runs s e) s e v"
  define f where "f = hd (positions runs s e)"
  define l where "l = last (positions runs s e)"
  define n where "n = length runs"
  note h = positions_hd [OF assms, folded f_def]
    and la = positions_last [OF assms, folded l_def]
  have fl: "f \<le> l" unfolding f_def l_def by (rule positions_hd_le_last [OF assms])
  let ?g = "\<lambda>i. run_text (?res ! i)"
  note nth = rewrite_runs_nth [OF assms _ f_def l_def, of _ v]
  have split: "[0..<n] = [0..<f] @ [f..<Suc l] @ [Suc l..<n]"
  proof -
    from h(1) obtain k where k: "n = f + k"
      unfolding n_def using le_Suc_ex less_imp_le_nat by blast
    from la(1) obtain m where m: "n = Suc l + m"
      unfolding n_def using le_Suc_ex Suc_leI by blast
    have "[0..<f + k] = [0..<f] @ [f..<f + k]"
      by (rule upt_add_eq_append) simp
    moreover have "[f..<Suc l + m] = [f..<Suc l] @ [Suc l..<Suc l + m]"
      by (rule upt_add_eq_append) (use fl in simp)
    ultimately show ?thesis unfolding k [symmetric] m [symmetric] by simp
  qed
  have a: "concat (map ?g [0..<f]) = full_text (take f runs)"
  proof -
    have "map ?g [0..<f] = map (\<lambda>i. run_text (runs ! i)) [0..<f]"
      using h(1) fl by (intro map_cong refl) (simp add: nth)
    then have "concat (map ?g [0..<f]) = concat (map (\<lambda>i. run_text (runs ! i)) [0..<f])"
      by (rule arg_cong)
    also have "\<dots> = full_text (take f runs)"
      using h(1) by (simp add: full_text_take_nth)
    finally show ?thesis .
  qed
  have c: "concat (map ?g [Suc l..<n]) = full_text (drop (Suc l) runs)"
  proof -
    have "map ?g [Suc l..<n] = map (\<lambda>i. run_text (runs ! i)) [Suc l..<n]"
      using fl by (intro map_cong refl) (simp add: nth n_def)
    then have "concat (map ?g [Suc l..<n]) = concat (map (\<lambda>i. run_text (runs ! i)) [Suc l..<n])"
      by (rule arg_cong)
    also have "\<dots> = full_text (drop (Suc l) runs)"
      by (simp add: full_text_drop_nth n_def)
    finally show ?thesis .
  qed
  have b: "concat (map ?g [f..<Suc l]) = v"
  proof -
    have gf: "?g f = v" using h(1) by (simp add: nth)
    have mid: "concat (map ?g [Suc f..<Suc l]) = []"
    proof (rule concat_map_empty)
      fix x assume "x \<in> set [Suc f..<Suc l]"
      then have "f < x" "x \<le> l" by auto
      with la(1) show "?g x = []" by (simp add: nth)
    qed
    from fl have "[f..<Suc l] = f # [Suc f..<Suc l]"
      by (simp add: upt_conv_Cons)
    then have "concat (map ?g [f..<Suc l]) = ?g f @ concat (map ?g [Suc f..<Suc l])"
      by simp
    then show ?thesis by (simp only: gf mid) simp
  qed
  have "full_text ?res = concat (map ?g [0..<n])"
    by (simp add: full_text_nth [of ?res] n_def)
  also have "\<dots> = full_text (take f runs) @ v @ full_text (drop (Suc l) runs)"
    by (simp only: split map_append concat_append a b c append_assoc)
  finally show ?thesis by (simp only: f_def l_def)
qed

text \<open>
  What a rewriting loses: the text \<open>x\<close> before the occurrence in the first collected run
  and the text \<open>y\<close> after the occurrence in the last collected run.
\<close>

lemma full_text_rewrite_runs_lost:
  assumes "s < e" "e \<le> length (full_text runs)"
  shows "\<exists>A x y B. full_text runs = A @ x @ take (e - s) (drop s (full_text runs)) @ y @ B
           \<and> length (A @ x) = s
           \<and> length A = offset runs (hd (positions runs s e))
           \<and> length (A @ x @ take (e - s) (drop s (full_text runs)) @ y)
               = offset runs (Suc (last (positions runs s e)))
           \<and> full_text (rewrite_runs runs (runs_to_modify runs s e) s e v) = A @ v @ B"
proof -
  define f where "f = hd (positions runs s e)"
  define l where "l = last (positions runs s e)"
  note h = positions_hd [OF assms, folded f_def]
    and la = positions_last [OF assms, folded l_def]
  define full where "full = full_text runs"
  define A where "A = full_text (take f runs)"
  define B where "B = full_text (drop (Suc l) runs)"
  define x where "x = take (s - offset runs f) (run_text (runs ! f))"
  define y where "y = drop (e - offset runs l) (run_text (runs ! l))"
  define mid where "mid = take (e - s) (drop s full)"
  have t: "take s full = A @ x"
    unfolding full_def A_def x_def using h by (simp add: take_full_text)
  have d: "drop e full = y @ B"
    unfolding full_def B_def y_def using la by (simp add: drop_full_text)
  have "drop s full = mid @ drop (e - s) (drop s full)"
    unfolding mid_def by (rule append_take_drop_id [symmetric])
  moreover have "drop (e - s) (drop s full) = drop e full" using assms(1) by simp
  ultimately have ds: "drop s full = mid @ y @ B" by (simp only: d)
  have "full = take s full @ drop s full" by simp
  then have 1: "full = A @ x @ mid @ y @ B" by (simp only: t ds append_assoc)
  have "length (take s full) = s" using assms by (simp add: full_def)
  then have 2: "length (A @ x) = s" by (simp only: t)
  have 3: "length A = offset runs f" by (simp add: offset_def A_def)
  have "full_text runs = full_text (take (Suc l) runs) @ full_text (drop (Suc l) runs)"
    unfolding full_text_def by (simp only: concat_append [symmetric] map_append [symmetric]
        append_take_drop_id)
  then have "length full = offset runs (Suc l) + length B"
    by (simp add: full_def B_def offset_def)
  moreover from 1 have "length full = length (A @ x @ mid @ y @ B)" by (rule arg_cong)
  then have "length full = length (A @ x @ mid @ y) + length B" by simp
  ultimately have 4: "length (A @ x @ mid @ y) = offset runs (Suc l)" by simp
  have 5: "full_text (rewrite_runs runs (runs_to_modify runs s e) s e v) = A @ v @ B"
    unfolding A_def B_def f_def l_def by (rule full_text_rewrite_runs [OF assms])
  from 1 2 3 4 5 show ?thesis
    unfolding full_def mid_def f_def l_def by blast
qed

lemma map_run_fmt_rewrite_runs:
  assumes "s < e" "e \<le> length (full_text runs)"
  shows "map run_fmt (rewrite_runs runs (runs_to_modify runs s e) s e v) = map run_fmt runs"
  by (rule nth_equalityI) (simp_all add: rewrite_runs_nth [OF assms _ refl refl])


section \<open>One pass and the loop\<close>

lemma runs_to_modify_empty_range: "runs_to_modify runs s 0 = []"
  by (simp add: runs_to_modify_positions positions_empty_range)

lemma runs_to_modify_nonempty:
  "s < e \<Longrightarrow> e \<le> length (full_text runs) \<Longrightarrow> runs_to_modify runs s e \<noteq> []"
  by (simp add: runs_to_modify_positions positions_nonempty)

lemma str_find_range:
  assumes "str_find s k = Some i" "k \<noteq> []"
  shows "i < i + length k" "i + length k \<le> length s"
  using str_find_SomeD [OF assms(1)] assms(2) by simp_all

lemma replace_pass_empty_key: "replace_pass runs (([], v) # rest) = replace_pass runs rest"
  by (simp add: str_find_empty_key runs_to_modify_empty_range)

lemma replace_pass_absent_key:
  "str_find (full_text runs) k = None \<Longrightarrow> replace_pass runs ((k, v) # rest) = replace_pass runs rest"
  by simp

lemma replace_pass_found_key:
  assumes "str_find (full_text runs) k = Some i" "k \<noteq> []"
  shows "replace_pass runs ((k, v) # rest)
           = Some (rewrite_runs runs (runs_to_modify runs i (i + length k)) i (i + length k) v)"
  using assms runs_to_modify_nonempty [OF str_find_range [OF assms]]
  by (simp add: Let_def)

lemma replace_pass_skip:
  "\<forall>kv \<in> set pre. skipped (full_text runs) kv \<Longrightarrow>
     replace_pass runs (pre @ rest) = replace_pass runs rest"
proof (induction pre)
  case Nil
  then show ?case by simp
next
  case (Cons kv pre)
  obtain k v where kv: "kv = (k, v)" by (cases kv)
  from Cons.prems have "skipped (full_text runs) (k, v)" by (simp add: kv)
  then have "replace_pass runs ((k, v) # pre @ rest) = replace_pass runs (pre @ rest)"
    unfolding skipped_def using replace_pass_empty_key replace_pass_absent_key by fastforce
  with Cons show ?case by (simp add: kv)
qed

lemma replace_pass_None_iff:
  "replace_pass runs ph = None \<longleftrightarrow> (\<forall>kv \<in> set ph. skipped (full_text runs) kv)"
proof (induction ph)
  case Nil
  then show ?case by simp
next
  case (Cons kv ph)
  obtain k v where kv: "kv = (k, v)" by (cases kv)
  show ?case
  proof (cases "skipped (full_text runs) (k, v)")
    case True
    then have "replace_pass runs ((k, v) # ph) = replace_pass runs ph"
      unfolding skipped_def using replace_pass_empty_key replace_pass_absent_key by fastforce
    with True Cons show ?thesis by (simp add: kv)
  next
    case False
    then obtain i where "str_find (full_text runs) k = Some i" "k \<noteq> []"
      by (auto simp: skipped_def)
    from replace_pass_found_key [OF this] False show ?thesis by (simp add: kv)
  qed
qed

lemma replace_pass_SomeD:
  assumes "replace_pass runs ph = Some runs'"
  shows "\<exists>pre k v post i. ph = pre @ (k, v) # post
           \<and> (\<forall>kv \<in> set pre. skipped (full_text runs) kv)
           \<and> k \<noteq> [] \<and> str_find (full_text runs) k = Some i
           \<and> runs' = rewrite_runs runs (runs_to_modify runs i (i + length k)) i (i + length k) v"
  using assms
proof (induction ph)
  case Nil
  then show ?case by simp
next
  case (Cons kv ph)
  obtain k v where kv: "kv = (k, v)" by (cases kv)
  show ?case
  proof (cases "skipped (full_text runs) (k, v)")
    case True
    then have "replace_pass runs ((k, v) # ph) = replace_pass runs ph"
      unfolding skipped_def using replace_pass_empty_key replace_pass_absent_key by fastforce
    with Cons.prems have "replace_pass runs ph = Some runs'" by (simp add: kv)
    from Cons.IH [OF this] obtain pre k' v' post i where
      *: "ph = pre @ (k', v') # post" "\<forall>kv \<in> set pre. skipped (full_text runs) kv"
      "k' \<noteq> []" "str_find (full_text runs) k' = Some i"
      "runs' = rewrite_runs runs (runs_to_modify runs i (i + length k')) i (i + length k') v'"
      by blast
    from *(1) have "kv # ph = (kv # pre) @ (k', v') # post" by simp
    moreover from *(2) True have "\<forall>kv \<in> set (kv # pre). skipped (full_text runs) kv"
      by (simp add: kv)
    ultimately show ?thesis using *(3-5) by blast
  next
    case False
    then obtain i where i: "str_find (full_text runs) k = Some i" "k \<noteq> []"
      by (auto simp: skipped_def)
    from replace_pass_found_key [OF this] Cons.prems
    have "runs' = rewrite_runs runs (runs_to_modify runs i (i + length k)) i (i + length k) v"
      by (simp add: kv)
    moreover have "kv # ph = [] @ (k, v) # ph" by (simp add: kv)
    moreover have "\<forall>kv \<in> set []. skipped (full_text runs) kv" by simp
    ultimately show ?thesis using i by blast
  qed
qed

lemma replace_pass_fmt:
  assumes "replace_pass runs ph = Some runs'"
  shows "map run_fmt runs' = map run_fmt runs"
proof -
  from replace_pass_SomeD [OF assms] obtain k v i where
    "k \<noteq> []" "str_find (full_text runs) k = Some i"
    "runs' = rewrite_runs runs (runs_to_modify runs i (i + length k)) i (i + length k) v"
    by blast
  with map_run_fmt_rewrite_runs [OF str_find_range [OF this(2,1)]] show ?thesis by simp
qed

lemmas replace_in_paragraph_induct =
  replace_in_paragraph.raw_induct [rotated 1, consumes 1, case_names step]

lemma replace_in_paragraph_done:
  "replace_pass runs ph = None \<Longrightarrow> replace_in_paragraph runs ph = Some runs"
  by (subst replace_in_paragraph.simps) simp

lemma replace_in_paragraph_step:
  "replace_pass runs ph = Some runs' \<Longrightarrow>
     replace_in_paragraph runs ph = replace_in_paragraph runs' ph"
  by (subst replace_in_paragraph.simps) simp

lemma replace_in_paragraph_final:
  "replace_in_paragraph runs ph = Some runs' \<Longrightarrow> replace_pass runs' ph = None"
proof (induction rule: replace_in_paragraph_induct)
  case (step loop runs ph runs')
  then show ?case by (cases "replace_pass runs ph") auto
qed

lemma replace_in_paragraph_fmt:
  "replace_in_paragraph runs ph = Some runs' \<Longrightarrow> map run_fmt runs' = map run_fmt runs"
proof (induction rule: replace_in_paragraph_induct)
  case (step loop runs ph runs')
  show ?case
  proof (cases "replace_pass runs ph")
    case None
    with step(2) show ?thesis by simp
  next
    case (Some r)
    with step(2) have "loop r ph = Some runs'" by simp
    from step(1) [OF this] replace_pass_fmt [OF Some] show ?thesis by simp
  qed
qed

lemma replace_in_paragraph_stuck:
  assumes "replace_pass runs ph = Some runs"
  shows "replace_in_paragraph runs ph = None"
proof (rule ccontr)
  assume "replace_in_paragraph runs ph \<noteq> None"
  then obtain r where "replace_in_paragraph runs ph = Some r" by auto
  then have "replace_pass runs ph \<noteq> Some runs"
  proof (induction rule: replace_in_paragraph_induct)
    case (step loop runs ph runs')
    show ?case
    proof
      assume a: "replace_pass runs ph = Some runs"
      with step(2) have "loop runs ph = Some runs'" by simp
      from step(1) [OF this] a show False by simp
    qed
  qed
  with assms show False by simp
qed

lemma replace_in_paragraph_cong:
  assumes "\<And>rs :: 'f para. replace_pass rs ph = replace_pass rs ph'"
  shows "replace_in_paragraph (runs :: 'f para) ph = replace_in_paragraph runs ph'"
proof -
  have dir: "replace_in_paragraph runs p = Some r \<Longrightarrow>
      (\<And>rs :: 'f para. replace_pass rs p = replace_pass rs q) \<Longrightarrow>
      replace_in_paragraph runs q = Some r" for runs :: "'f para" and p q r
  proof (induction rule: replace_in_paragraph_induct)
    case (step loop runs p r)
    show ?case
    proof (cases "replace_pass runs p")
      case None
      with step(2) have "r = runs" by simp
      with None step(3) [of runs] show ?thesis by (simp add: replace_in_paragraph_done)
    next
      case (Some r1)
      with step(2) have "loop r1 p = Some r" by simp
      from step(1) [OF this step(3)] have "replace_in_paragraph r1 q = Some r" .
      moreover from Some step(3) [of runs] have "replace_pass runs q = Some r1" by simp
      ultimately show ?thesis by (simp add: replace_in_paragraph_step)
    qed
  qed
  show ?thesis
  proof (cases "replace_in_paragraph runs ph")
    case None
    show ?thesis
    proof (cases "replace_in_paragraph runs ph'")
      case None': None
      with None show ?thesis by simp
    next
      case (Some r)
      from dir [OF Some] assms have "replace_in_paragraph runs ph = Some r" by simp
      with None show ?thesis by simp
    qed
  next
    case (Some r)
    from dir [OF Some assms] Some show ?thesis by simp
  qed
qed

section \<open>Blocks\<close>

lemma those_map_Some_iff:
  "those (map f xs) = Some ys \<longleftrightarrow> list_all2 (\<lambda>x y. f x = Some y) xs ys"
proof (induction xs arbitrary: ys)
  case Nil
  then show ?case by auto
next
  case (Cons x xs)
  show ?case
  proof (cases "f x")
    case None
    then show ?thesis by (auto simp: list_all2_Cons1)
  next
    case (Some y)
    with Cons show ?thesis
      by (cases "those (map f xs)") (auto simp: list_all2_Cons1)
  qed
qed

lemma those_map_idem:
  assumes "those (map f xs) = Some ys"
    and "\<And>x y. x \<in> set xs \<Longrightarrow> f x = Some y \<Longrightarrow> f y = Some y"
  shows "those (map f ys) = Some ys"
proof -
  from assms(1) have "list_all2 (\<lambda>x y. f x = Some y) xs ys" by (simp add: those_map_Some_iff)
  then have "list_all2 (\<lambda>x y. f x = Some y) ys ys" using assms(2)
  proof (induction rule: list_all2_induct)
    case Nil
    then show ?case by simp
  next
    case (Cons x xs y ys)
    then show ?case by auto
  qed
  then show ?thesis by (simp add: those_map_Some_iff)
qed

lemma those_map_image:
  assumes "those (map f xs) = Some ys"
    and "\<And>x y. x \<in> set xs \<Longrightarrow> f x = Some y \<Longrightarrow> g y = g x"
  shows "map g ys = map g xs"
proof -
  from assms(1) have "list_all2 (\<lambda>x y. f x = Some y) xs ys" by (simp add: those_map_Some_iff)
  then show ?thesis using assms(2)
  proof (induction rule: list_all2_induct)
    case Nil
    then show ?case by simp
  next
    case (Cons x xs y ys)
    then show ?case by simp
  qed
qed

lemma those_map_concat:
  assumes "those (map f xs) = Some ys"
    and "\<And>x y. x \<in> set xs \<Longrightarrow> f x = Some y \<Longrightarrow> list_all2 R (h x) (h y)"
  shows "list_all2 R (concat (map h xs)) (concat (map h ys))"
proof -
  from assms(1) have "list_all2 (\<lambda>x y. f x = Some y) xs ys" by (simp add: those_map_Some_iff)
  then show ?thesis using assms(2)
  proof (induction rule: list_all2_induct)
    case Nil
    then show ?case by simp
  next
    case (Cons x xs y ys)
    then show ?case by (simp add: list_all2_appendI)
  qed
qed

lemma replace_in_block_SomeD:
  assumes "replace_in_block (Block ps ts) ph = Some b'"
  obtains ps' ts' where "b' = Block ps' ts'"
    "those (map (\<lambda>p. replace_in_paragraph p ph) ps) = Some ps'"
    "those (map (\<lambda>table. those (map (\<lambda>row. those (map (\<lambda>cell.
        replace_in_block cell ph) row)) table)) ts) = Some ts'"
  using assms by (auto split: option.splits)

lemma replace_in_paragraph_idem:
  "replace_in_paragraph p ph = Some p' \<Longrightarrow> replace_in_paragraph p' ph = Some p'"
  by (rule replace_in_paragraph_done) (rule replace_in_paragraph_final)

lemma replace_in_block_idem:
  "replace_in_block b ph = Some b' \<Longrightarrow> replace_in_block b' ph = Some b'"
proof (induction b ph arbitrary: b' rule: replace_in_block.induct)
  case (1 ps ts ph)
  from "1.prems" obtain ps' ts' where b': "b' = Block ps' ts'"
    and ps: "those (map (\<lambda>p. replace_in_paragraph p ph) ps) = Some ps'"
    and ts: "those (map (\<lambda>table. those (map (\<lambda>row. those (map (\<lambda>cell.
        replace_in_block cell ph) row)) table)) ts) = Some ts'"
    by (rule replace_in_block_SomeD)
  have "those (map (\<lambda>p. replace_in_paragraph p ph) ps') = Some ps'"
    using ps by (rule those_map_idem) (rule replace_in_paragraph_idem)
  moreover have "those (map (\<lambda>table. those (map (\<lambda>row. those (map (\<lambda>cell.
        replace_in_block cell ph) row)) table)) ts') = Some ts'"
    using ts
  proof (rule those_map_idem)
    fix table table'
    assume t: "table \<in> set ts"
      and t': "those (map (\<lambda>row. those (map (\<lambda>cell. replace_in_block cell ph) row)) table)
        = Some table'"
    show "those (map (\<lambda>row. those (map (\<lambda>cell. replace_in_block cell ph) row)) table')
        = Some table'"
    proof (rule those_map_idem [OF t'])
      fix row row'
      assume r: "row \<in> set table"
        and r': "those (map (\<lambda>cell. replace_in_block cell ph) row) = Some row'"
      show "those (map (\<lambda>cell. replace_in_block cell ph) row') = Some row'"
      proof (rule those_map_idem [OF r'])
        fix cell cell'
        assume "cell \<in> set row" "replace_in_block cell ph = Some cell'"
        with "1.IH" [OF ps t r] show "replace_in_block cell' ph = Some cell'" by blast
      qed
    qed
  qed
  ultimately show ?case by (simp add: b')
qed

lemma erase_para_eqI: "map run_fmt xs = map run_fmt ys \<Longrightarrow> erase_para xs = erase_para ys"
proof (induction xs arbitrary: ys)
  case Nil
  then show ?case by (simp add: erase_para_def)
next
  case (Cons x xs)
  then obtain y ys' where ys: "ys = y # ys'" by (cases ys) auto
  with Cons.prems have "run_fmt x = run_fmt y" "map run_fmt xs = map run_fmt ys'" by simp_all
  with Cons.IH [of ys'] show ?case by (simp add: ys erase_para_def)
qed

lemma replace_in_paragraph_erase:
  "replace_in_paragraph p ph = Some p' \<Longrightarrow> erase_para p' = erase_para p"
  by (rule erase_para_eqI) (rule replace_in_paragraph_fmt)

lemma replace_in_block_erase:
  "replace_in_block b ph = Some b' \<Longrightarrow> erase_block b' = erase_block b"
proof (induction b ph arbitrary: b' rule: replace_in_block.induct)
  case (1 ps ts ph)
  from "1.prems" obtain ps' ts' where b': "b' = Block ps' ts'"
    and ps: "those (map (\<lambda>p. replace_in_paragraph p ph) ps) = Some ps'"
    and ts: "those (map (\<lambda>table. those (map (\<lambda>row. those (map (\<lambda>cell.
        replace_in_block cell ph) row)) table)) ts) = Some ts'"
    by (rule replace_in_block_SomeD)
  have "map erase_para ps' = map erase_para ps"
    using ps by (rule those_map_image) (rule replace_in_paragraph_erase)
  moreover have "map (map (map erase_block)) ts' = map (map (map erase_block)) ts"
    using ts
  proof (rule those_map_image)
    fix table table'
    assume t: "table \<in> set ts"
      and t': "those (map (\<lambda>row. those (map (\<lambda>cell. replace_in_block cell ph) row)) table)
        = Some table'"
    show "map (map erase_block) table' = map (map erase_block) table"
    proof (rule those_map_image [OF t'])
      fix row row'
      assume r: "row \<in> set table"
        and r': "those (map (\<lambda>cell. replace_in_block cell ph) row) = Some row'"
      show "map erase_block row' = map erase_block row"
      proof (rule those_map_image [OF r'])
        fix cell cell'
        assume "cell \<in> set row" "replace_in_block cell ph = Some cell'"
        with "1.IH" [OF ps t r] show "erase_block cell' = erase_block cell" by blast
      qed
    qed
  qed
  ultimately show ?case by (simp add: b')
qed

lemma replace_in_block_paragraphs:
  "replace_in_block b ph = Some b' \<Longrightarrow>
     list_all2 (\<lambda>p p'. replace_in_paragraph p ph = Some p') (block_paragraphs b) (block_paragraphs b')"
proof (induction b ph arbitrary: b' rule: replace_in_block.induct)
  case (1 ps ts ph)
  let ?R = "\<lambda>p p'. replace_in_paragraph p ph = Some p'"
  from "1.prems" obtain ps' ts' where b': "b' = Block ps' ts'"
    and ps: "those (map (\<lambda>p. replace_in_paragraph p ph) ps) = Some ps'"
    and ts: "those (map (\<lambda>table. those (map (\<lambda>row. those (map (\<lambda>cell.
        replace_in_block cell ph) row)) table)) ts) = Some ts'"
    by (rule replace_in_block_SomeD)
  have "list_all2 ?R ps ps'"
    using ps by (simp add: those_map_Some_iff)
  moreover have "list_all2 ?R
      (concat (map (\<lambda>table. concat (map (\<lambda>row. concat (map block_paragraphs row)) table)) ts))
      (concat (map (\<lambda>table. concat (map (\<lambda>row. concat (map block_paragraphs row)) table)) ts'))"
    using ts
  proof (rule those_map_concat)
    fix table table'
    assume t: "table \<in> set ts"
      and t': "those (map (\<lambda>row. those (map (\<lambda>cell. replace_in_block cell ph) row)) table)
        = Some table'"
    show "list_all2 ?R (concat (map (\<lambda>row. concat (map block_paragraphs row)) table))
        (concat (map (\<lambda>row. concat (map block_paragraphs row)) table'))"
    proof (rule those_map_concat [OF t'])
      fix row row'
      assume r: "row \<in> set table"
        and r': "those (map (\<lambda>cell. replace_in_block cell ph) row) = Some row'"
      show "list_all2 ?R (concat (map block_paragraphs row)) (concat (map block_paragraphs row'))"
      proof (rule those_map_concat [OF r'])
        fix cell cell'
        assume "cell \<in> set row" "replace_in_block cell ph = Some cell'"
        with "1.IH" [OF ps t r] show "list_all2 ?R (block_paragraphs cell) (block_paragraphs cell')"
          by blast
      qed
    qed
  qed
  ultimately show ?case by (simp add: b' list_all2_appendI)
qed

section \<open>Sections and the document\<close>

lemma replace_in_sections_idem:
  "replace_in_sections ss ph = Some ss' \<Longrightarrow> replace_in_sections ss' ph = Some ss'"
proof (induction ss arbitrary: ss')
  case Nil
  then show ?case by simp
next
  case (Cons s ss)
  then show ?case by (auto split: option.splits simp: replace_in_block_idem)
qed

lemma replace_in_sections_erase:
  "replace_in_sections ss ph = Some ss' \<Longrightarrow> map erase_sect ss' = map erase_sect ss"
proof (induction ss arbitrary: ss')
  case Nil
  then show ?case by simp
next
  case (Cons s ss)
  from Cons.prems obtain h f ss1 where h: "replace_in_block (header s) ph = Some h"
    and f: "replace_in_block (footer s) ph = Some f"
    and ss1: "replace_in_sections ss ph = Some ss1"
    and ss': "ss' = s\<lparr>header := h, footer := f\<rparr> # ss1"
    by (auto split: option.splits)
  from replace_in_block_erase [OF h] replace_in_block_erase [OF f] Cons.IH [OF ss1]
  show ?case by (simp add: ss' erase_sect_def)
qed

lemma replace_in_sections_paragraphs:
  "replace_in_sections ss ph = Some ss' \<Longrightarrow>
     list_all2 (\<lambda>p p'. replace_in_paragraph p ph = Some p')
       (concat (map (\<lambda>s. block_paragraphs (header s) @ block_paragraphs (footer s)) ss))
       (concat (map (\<lambda>s. block_paragraphs (header s) @ block_paragraphs (footer s)) ss'))"
proof (induction ss arbitrary: ss')
  case Nil
  then show ?case by simp
next
  case (Cons s ss)
  then show ?case
    by (auto split: option.splits intro!: list_all2_appendI dest: replace_in_block_paragraphs)
qed

lemma replace_placeholders_SomeD:
  assumes "replace_placeholders doc ph = Some doc'"
  obtains b ss where "replace_in_block (body doc) ph = Some b"
    "replace_in_sections (sections doc) ph = Some ss" "doc' = doc\<lparr>body := b, sections := ss\<rparr>"
  using assms by (auto simp: replace_placeholders_def split: option.splits)

lemma replace_placeholders_idem:
  assumes "replace_placeholders doc ph = Some doc'"
  shows "replace_placeholders doc' ph = Some doc'"
proof -
  from assms obtain b ss where "replace_in_block (body doc) ph = Some b"
    "replace_in_sections (sections doc) ph = Some ss" "doc' = doc\<lparr>body := b, sections := ss\<rparr>"
    by (rule replace_placeholders_SomeD)
  then show ?thesis
    by (simp add: replace_placeholders_def replace_in_block_idem replace_in_sections_idem)
qed

lemma replace_placeholders_erase:
  assumes "replace_placeholders doc ph = Some doc'"
  shows "erase_document doc' = erase_document doc"
proof -
  from assms obtain b ss where "replace_in_block (body doc) ph = Some b"
    "replace_in_sections (sections doc) ph = Some ss" "doc' = doc\<lparr>body := b, sections := ss\<rparr>"
    by (rule replace_placeholders_SomeD)
  then show ?thesis
    by (simp add: erase_document_def replace_in_block_erase replace_in_sections_erase)
qed

lemma replace_placeholders_paragraphs:
  assumes "replace_placeholders doc ph = Some doc'"
  shows "list_all2 (\<lambda>p p'. replace_in_paragraph p ph = Some p')
           (document_paragraphs doc) (document_paragraphs doc')"
proof -
  from assms obtain b ss where "replace_in_block (body doc) ph = Some b"
    "replace_in_sections (sections doc) ph = Some ss" "doc' = doc\<lparr>body := b, sections := ss\<rparr>"
    by (rule replace_placeholders_SomeD)
  then show ?thesis
    by (simp add: document_paragraphs_def list_all2_appendI
        replace_in_block_paragraphs replace_in_sections_paragraphs)
qed

lemma list_all2_rightD:
  "list_all2 R xs ys \<Longrightarrow> y \<in> set ys \<Longrightarrow> \<exists>x \<in> set xs. R x y"
  by (induction rule: list_all2_induct) auto


section \<open>Termination\<close>

text \<open>The text before and after a pass that replaces.\<close>

lemma replace_pass_text:
  assumes "replace_pass runs ph = Some runs'"
  shows "\<exists>k v A x y B. (k, v) \<in> set ph \<and> k \<noteq> []
           \<and> full_text runs = A @ x @ k @ y @ B \<and> full_text runs' = A @ v @ B"
proof -
  from replace_pass_SomeD [OF assms] obtain pre k v post i where
    *: "ph = pre @ (k, v) # post" "k \<noteq> []" "str_find (full_text runs) k = Some i"
    "runs' = rewrite_runs runs (runs_to_modify runs i (i + length k)) i (i + length k) v"
    by blast
  from *(1) have "(k, v) \<in> set ph" by simp
  from str_find_SomeD [OF *(3)] have "prefix k (drop i (full_text runs))" by simp
  then have k: "take (i + length k - i) (drop i (full_text runs)) = k"
    by (auto simp: prefix_def)
  from full_text_rewrite_runs_lost [OF str_find_range [OF *(3,2)], of v]
  obtain A x y B where
    "full_text runs = A @ x @ take (i + length k - i) (drop i (full_text runs)) @ y @ B"
    "full_text (rewrite_runs runs (runs_to_modify runs i (i + length k)) i (i + length k) v)
       = A @ v @ B"
    by blast
  then have "full_text runs = A @ x @ k @ y @ B" "full_text runs' = A @ v @ B"
    by (simp_all only: k *(4))
  with \<open>(k, v) \<in> set ph\<close> *(2) show ?thesis by blast
qed

text \<open>
  A weighting of the characters under which every non-empty key is heavier than its value:
  each replacement makes the text lighter, so the loop ends.
\<close>

lemma replace_pass_weight:
  fixes w :: "char \<Rightarrow> nat"
  assumes "replace_pass runs ph = Some runs'"
    and "\<forall>(k, v) \<in> set ph. k \<noteq> [] \<longrightarrow> sum_list (map w v) < sum_list (map w k)"
  shows "sum_list (map w (full_text runs')) < sum_list (map w (full_text runs))"
proof -
  from replace_pass_text [OF assms(1)] obtain k v A x y B where
    *: "(k, v) \<in> set ph" "k \<noteq> []"
    "full_text runs = A @ x @ k @ y @ B" "full_text runs' = A @ v @ B"
    by blast
  from *(1,2) assms(2) have "sum_list (map w v) < sum_list (map w k)" by auto
  then show ?thesis by (simp add: *(3,4))
qed

lemma replace_in_paragraph_terminates:
  fixes w :: "char \<Rightarrow> nat"
  assumes "\<forall>(k, v) \<in> set ph. k \<noteq> [] \<longrightarrow> sum_list (map w v) < sum_list (map w k)"
  shows "\<exists>runs'. replace_in_paragraph runs ph = Some runs'"
proof (induction "sum_list (map w (full_text runs))" arbitrary: runs rule: less_induct)
  case less
  show ?case
  proof (cases "replace_pass runs ph")
    case None
    then show ?thesis by (simp add: replace_in_paragraph_done)
  next
    case (Some r1)
    from replace_pass_weight [OF Some assms]
    have "\<exists>runs'. replace_in_paragraph r1 ph = Some runs'" by (rule less)
    with Some show ?thesis by (simp add: replace_in_paragraph_step)
  qed
qed

text \<open>
  When no value holds a non-empty key, each replacement lowers \<open>pending\<close>: it empties a
  run with a text, or it takes the key out of the one run that held it.
\<close>

lemma prefix_in_first_part:
  assumes "prefix k (a @ b)" "length k \<le> length a"
  shows "prefix k a"
proof -
  from assms(1) obtain r where "a @ b = k @ r" by (auto simp: prefix_def)
  then have "take (length k) (a @ b) = k" by simp
  with assms(2) have "take (length k) a = k" by simp
  then show ?thesis by (metis take_is_prefix)
qed

lemma clean_values:
  assumes "\<forall>(k, v) \<in> set ph. \<forall>(k', v') \<in> set ph. k \<noteq> [] \<longrightarrow> str_find v' k = None"
    and "(k, v) \<in> set ph" "(k', v') \<in> set ph" "k \<noteq> []"
  shows "str_find v' k = None"
proof -
  from bspec [OF assms(1,2)] have "\<forall>(k', v') \<in> set ph. k \<noteq> [] \<longrightarrow> str_find v' k = None"
    by simp
  from bspec [OF this assms(3)] assms(4) show ?thesis by simp
qed

lemma run_pending_blank [simp]: "run_pending ph (r\<lparr>run_text := []\<rparr>) = 0"
  by (auto simp: run_pending_def holds_key_def)

lemma replace_pass_pending:
  assumes pass: "replace_pass runs ph = Some runs'"
    and clean: "\<forall>(k, v) \<in> set ph. \<forall>(k', v') \<in> set ph. k \<noteq> [] \<longrightarrow> str_find v' k = None"
  shows "pending ph runs' < pending ph runs"
proof -
  from replace_pass_SomeD [OF pass] obtain pre k v post i where
    *: "ph = pre @ (k, v) # post" "k \<noteq> []" "str_find (full_text runs) k = Some i"
    "runs' = rewrite_runs runs (runs_to_modify runs i (i + length k)) i (i + length k) v"
    by blast
  define e where "e = i + length k"
  define f where "f = hd (positions runs i e)"
  define l where "l = last (positions runs i e)"
  have range: "i < e" "e \<le> length (full_text runs)"
    unfolding e_def by (rule str_find_range [OF *(3,2)])+
  note h = positions_hd [OF range, folded f_def]
    and la = positions_last [OF range, folded l_def]
  have fl: "f \<le> l" unfolding f_def l_def by (rule positions_hd_le_last [OF range])
  have kv: "(k, v) \<in> set ph" using *(1) by simp
  note nth = rewrite_runs_nth [OF range _ f_def l_def, of _ v, folded e_def]
  have r': "runs' = rewrite_runs runs (runs_to_modify runs i e) i e v"
    by (simp add: *(4) e_def)
  let ?g = "\<lambda>j. run_pending ph (runs ! j)"
  let ?g' = "\<lambda>j. run_pending ph (runs' ! j)"
  have len: "length runs' = length runs" by (simp add: r')
  have val: "\<not> holds_key ph ((runs ! f)\<lparr>run_text := v\<rparr>)"
  proof
    assume "holds_key ph ((runs ! f)\<lparr>run_text := v\<rparr>)"
    then obtain k' v' where "(k', v') \<in> set ph" "k' \<noteq> []" "str_find v k' \<noteq> None"
      by (auto simp: holds_key_def)
    with clean_values [OF clean _ kv, of k' v'] show False by simp
  qed
  have gf': "?g' f \<le> 1" using h(1) val by (simp add: r' nth run_pending_def)
  have f_text: "run_text (runs ! f) \<noteq> []" using h(2,3) by auto
  have l_text: "run_text (runs ! l) \<noteq> []" using la(2,3) by auto
  have gf: "1 \<le> ?g f" using f_text by (simp add: run_pending_def)
  have le: "?g' j \<le> ?g j" if "j < length runs" for j
  proof (cases "j = f")
    case True
    with gf gf' show ?thesis by simp
  next
    case False
    with that show ?thesis by (simp add: r' nth)
  qed
  have strict: "\<exists>j \<in> {0..<length runs}. ?g' j < ?g j"
  proof (cases "f = l")
    case True
    have p: "prefix k (drop i (full_text runs))" using str_find_SomeD [OF *(3)] by simp
    have d: "drop i (full_text runs)
        = drop (i - offset runs f) (run_text (runs ! f)) @ full_text (drop (Suc f) runs)"
      using h by (intro drop_full_text) simp_all
    have n: "length k \<le> length (drop (i - offset runs f) (run_text (runs ! f)))"
      using la(3) h(2) True by (simp add: e_def)
    have "prefix k (drop (i - offset runs f) (run_text (runs ! f)))"
      by (rule prefix_in_first_part [OF p [unfolded d] n])
    from str_find_occurs [OF this] obtain j where
      "str_find (run_text (runs ! f)) k = Some j" ..
    with *(2) have "fst (k, v) \<noteq> [] \<and> str_find (run_text (runs ! f)) (fst (k, v)) \<noteq> None"
      by simp
    with kv have "holds_key ph (runs ! f)" unfolding holds_key_def by (rule bexI [rotated])
    with f_text have "?g f = 2" by (simp add: run_pending_def)
    with gf' have "?g' f < ?g f" by simp
    moreover from h(1) have "f \<in> {0..<length runs}" by simp
    ultimately show ?thesis by (rule bexI)
  next
    case False
    with fl have "f < l" by simp
    with la(1) have "?g' l = 0" by (simp add: r' nth)
    moreover have "1 \<le> ?g l" using l_text by (simp add: run_pending_def)
    ultimately have "?g' l < ?g l" by simp
    moreover from la(1) have "l \<in> {0..<length runs}" by simp
    ultimately show ?thesis by (rule bexI)
  qed
  have "pending ph runs' = (\<Sum>j = 0..<length runs. ?g' j)"
    by (simp add: pending_def sum_list_sum_nth len)
  also have "\<dots> < (\<Sum>j = 0..<length runs. ?g j)"
  proof (rule sum_strict_mono_ex1)
    show "finite {0..<length runs}" by simp
    show "\<forall>j \<in> {0..<length runs}. ?g' j \<le> ?g j" using le by simp
    show "\<exists>j \<in> {0..<length runs}. ?g' j < ?g j" by (rule strict)
  qed
  also have "\<dots> = pending ph runs"
    by (simp add: pending_def sum_list_sum_nth)
  finally show ?thesis .
qed

lemma replace_in_paragraph_terminates_clean:
  assumes "\<forall>(k, v) \<in> set ph. \<forall>(k', v') \<in> set ph. k \<noteq> [] \<longrightarrow> str_find v' k = None"
  shows "\<exists>runs'. replace_in_paragraph runs ph = Some runs'"
proof (induction "pending ph runs" arbitrary: runs rule: less_induct)
  case less
  show ?case
  proof (cases "replace_pass runs ph")
    case None
    then show ?thesis by (simp add: replace_in_paragraph_done)
  next
    case (Some r1)
    from replace_pass_pending [OF Some assms]
    have "\<exists>runs'. replace_in_paragraph r1 ph = Some runs'" by (rule less)
    with Some show ?thesis by (simp add: replace_in_paragraph_step)
  qed
qed

text \<open>When the loop ends on every paragraph, the walks return.\<close>

lemma those_map_total:
  "(\<And>x. x \<in> set xs \<Longrightarrow> \<exists>y. f x = Some y) \<Longrightarrow> \<exists>ys. those (map f xs) = Some ys"
proof (induction xs)
  case Nil
  then show ?case by simp
next
  case (Cons x xs)
  then obtain y ys where "f x = Some y" "those (map f xs) = Some ys" by fastforce
  then show ?case by simp
qed

lemma replace_in_block_total:
  assumes "\<And>p :: 'f para. \<exists>p'. replace_in_paragraph p ph = Some p'"
  shows "\<exists>b'. replace_in_block (b :: 'f block) ph = Some b'"
  using assms
proof (induction b ph rule: replace_in_block.induct)
  case (1 ps ts ph)
  have "\<exists>ps'. those (map (\<lambda>p. replace_in_paragraph p ph) ps) = Some ps'"
    by (rule those_map_total) (rule "1.prems")
  then obtain ps' where ps: "those (map (\<lambda>p. replace_in_paragraph p ph) ps) = Some ps'" ..
  have "\<exists>ts'. those (map (\<lambda>table. those (map (\<lambda>row. those (map (\<lambda>cell.
        replace_in_block cell ph) row)) table)) ts) = Some ts'"
  proof (rule those_map_total)
    fix table assume t: "table \<in> set ts"
    show "\<exists>table'. those (map (\<lambda>row. those (map (\<lambda>cell. replace_in_block cell ph) row)) table)
        = Some table'"
    proof (rule those_map_total)
      fix row assume r: "row \<in> set table"
      show "\<exists>row'. those (map (\<lambda>cell. replace_in_block cell ph) row) = Some row'"
      proof (rule those_map_total)
        fix cell assume "cell \<in> set row"
        from "1.IH" [OF ps t r this "1.prems"]
        show "\<exists>cell'. replace_in_block cell ph = Some cell'" .
      qed
    qed
  qed
  then obtain ts' where "those (map (\<lambda>table. those (map (\<lambda>row. those (map (\<lambda>cell.
        replace_in_block cell ph) row)) table)) ts) = Some ts'" ..
  with ps show ?case by simp
qed

lemma replace_in_sections_total:
  assumes "\<And>p :: 'f para. \<exists>p'. replace_in_paragraph p ph = Some p'"
  shows "\<exists>ss'. replace_in_sections (ss :: 'f sect list) ph = Some ss'"
proof (induction ss)
  case Nil
  then show ?case by simp
next
  case (Cons s ss)
  from replace_in_block_total [OF assms] obtain h f where
    "replace_in_block (header s) ph = Some h" "replace_in_block (footer s) ph = Some f"
    by blast
  with Cons show ?case by auto
qed

lemma replace_placeholders_total:
  assumes "\<And>p :: 'f para. \<exists>p'. replace_in_paragraph p ph = Some p'"
  shows "\<exists>doc'. replace_placeholders (doc :: 'f document) ph = Some doc'"
proof -
  from replace_in_block_total [OF assms] obtain b where
    "replace_in_block (body doc) ph = Some b" by blast
  moreover from replace_in_sections_total [OF assms] obtain ss where
    "replace_in_sections (sections doc) ph = Some ss" by blast
  ultimately show ?thesis by (simp add: replace_placeholders_def)
qed


section \<open>Occurrences that start and end at run boundaries\<close>

lemma full_text_append [simp]: "full_text (xs @ ys) = full_text xs @ full_text ys"
  by (simp add: full_text_def)

lemma offset_append_left: "offset (X @ Z) (length X) = length (full_text X)"
  by (simp add: offset_def)

text \<open>
  When the runs \<open>K\<close> spell the key and the search finds the key at their start, the pass
  rewrites \<open>K\<close> alone, into runs that spell the value; nothing is lost.
\<close>

lemma rewrite_runs_aligned:
  assumes runs: "runs = X @ K @ Y" and K: "full_text K = key" and ne: "key \<noteq> []"
    and found: "str_find (full_text runs) key = Some (length (full_text X))"
  shows "\<exists>K'. rewrite_runs runs
              (runs_to_modify runs (length (full_text X)) (length (full_text X) + length key))
              (length (full_text X)) (length (full_text X) + length key) val
            = X @ K' @ Y
         \<and> full_text K' = val \<and> length K' = length K"
proof -
  define i where "i = length (full_text X)"
  define e where "e = i + length key"
  define f where "f = hd (positions runs i e)"
  define l where "l = last (positions runs i e)"
  define res where "res = rewrite_runs runs (runs_to_modify runs i e) i e val"
  have range: "i < e" "e \<le> length (full_text runs)"
    unfolding e_def i_def by (rule str_find_range [OF found ne])+
  note h = positions_hd [OF range, folded f_def]
    and la = positions_last [OF range, folded l_def]
  have fl: "f \<le> l" unfolding f_def l_def by (rule positions_hd_le_last [OF range])
  note nth = rewrite_runs_nth [OF range _ f_def l_def, of _ val, folded res_def]
  have len: "length res = length runs" by (simp add: res_def)
  have oX: "offset runs (length X) = i"
    unfolding runs i_def by (rule offset_append_left)
  have oK: "offset runs (length X + length K) = e"
  proof -
    have "offset ((X @ K) @ Y) (length (X @ K)) = length (full_text (X @ K))"
      by (rule offset_append_left)
    then show ?thesis by (simp add: runs e_def i_def K)
  qed
  have fX: "length X \<le> f"
  proof (rule ccontr)
    assume "\<not> length X \<le> f"
    then have "f < length X" by simp
    from offset_next_le [OF this h(1)] oX h(3) show False by simp
  qed
  have lK: "l < length X + length K"
  proof (rule ccontr)
    assume "\<not> l < length X + length K"
    then have "length X + length K \<le> l" by simp
    from offset_mono [OF this, of runs] oK la(2) show False by simp
  qed
  have tX: "take (length X) res = X"
  proof (rule nth_equalityI)
    show "length (take (length X) res) = length X" by (simp add: len runs)
    fix j assume "j < length (take (length X) res)"
    then have j: "j < length X" by simp
    with fX have "res ! j = runs ! j" by (simp add: nth runs)
    with j show "take (length X) res ! j = X ! j" by (simp add: runs nth_append)
  qed
  have dY: "drop (length X + length K) res = Y"
  proof (rule nth_equalityI)
    show "length (drop (length X + length K) res) = length Y" by (simp add: len runs)
    fix j assume "j < length (drop (length X + length K) res)"
    then have j: "j < length Y" by (simp add: len runs)
    with lK fl have "res ! (length X + length K + j) = runs ! (length X + length K + j)"
      by (simp add: nth runs)
    with j show "drop (length X + length K) res ! j = Y ! j"
      by (simp add: runs nth_append len)
  qed
  define K' where "K' = take (length K) (drop (length X) res)"
  have "res = take (length X) res @ drop (length X) res" by simp
  also have "drop (length X) res
      = take (length K) (drop (length X) res) @ drop (length K) (drop (length X) res)"
    by (rule append_take_drop_id [symmetric])
  also have "drop (length K) (drop (length X) res) = drop (length X + length K) res"
    by (simp add: add.commute)
  finally have split: "res = X @ K' @ Y" by (simp only: tX dY K'_def)
  have lenK: "length K' = length K" by (simp add: K'_def len runs)
  from str_find_SomeD [OF found] have "prefix key (drop i (full_text runs))" by (simp add: i_def)
  then have mid: "take (e - i) (drop i (full_text runs)) = key"
    by (auto simp: prefix_def e_def)
  from full_text_rewrite_runs_lost [OF range, of val, folded f_def l_def res_def]
  obtain A x y B where
    *: "full_text runs = A @ x @ key @ y @ B" "length (A @ x) = i" "length A = offset runs f"
    "length (A @ x @ key @ y) = offset runs (Suc l)" "full_text res = A @ val @ B"
    unfolding mid by blast
  have "i \<le> offset runs f" using offset_mono [OF fX, of runs] oX by simp
  moreover have "offset runs f + length x = i" using *(2,3) by simp
  ultimately have "length x = 0" by linarith
  then have x: "x = []" by simp
  from lK have "Suc l \<le> length X + length K" by simp
  from offset_mono [OF this, of runs] have "offset runs (Suc l) \<le> e" by (simp only: oK)
  moreover have "offset runs (Suc l) = i + length key + length y"
    using *(2,4) by (simp add: x)
  ultimately have "length y = 0" unfolding e_def by linarith
  then have y: "y = []" by simp
  have "full_text runs = full_text X @ key @ full_text Y" by (simp add: runs K)
  with *(1) have "A @ key @ B = full_text X @ key @ full_text Y" by (simp add: x y)
  moreover have "length A = length (full_text X)" using *(2) x by (simp add: i_def)
  ultimately have "A = full_text X" "B = full_text Y" by simp_all
  with *(5) have "full_text res = full_text X @ val @ full_text Y" by simp
  moreover have "full_text res = full_text X @ full_text K' @ full_text Y"
    using arg_cong [OF split, of full_text] by simp
  ultimately have "full_text K' = val" by simp
  with split lenK show ?thesis unfolding res_def e_def i_def by blast
qed


section \<open>The occurrence that a pass takes\<close>



lemma replace_pass_chosen:
  assumes "ph = pre @ (key, val) # post"
    and "\<forall>(k, v) \<in> set pre. k = [] \<or> str_find (full_text runs) k = None"
    and "key \<noteq> []"
    and "str_find (full_text runs) key = Some i"
  shows "replace_pass runs ph
           = Some (rewrite_runs runs (runs_to_modify runs i (i + length key)) i (i + length key) val)"
proof -
  from assms(2) have "\<forall>kv \<in> set pre. skipped (full_text runs) kv"
    by (auto simp: skipped_def)
  then have "replace_pass runs ph = replace_pass runs ((key, val) # post)"
    unfolding assms(1) by (rule replace_pass_skip)
  also have "\<dots> = Some (rewrite_runs runs (runs_to_modify runs i (i + length key)) i
      (i + length key) val)"
    by (rule replace_pass_found_key [OF assms(4,3)])
  finally show ?thesis .
qed


section \<open>The claims\<close>




text \<open>
  C2: the pass does not keep the text around the occurrence. The second inner loop tests
  new proxies against \<open>first_run\<close> and \<open>last_run\<close>, so \<open>prefix\<close> and \<open>suffix\<close> stay empty:
  for the runs \<open>Hello {{\<close>, \<open>NAME\<close>, \<open>}} world\<close> the first run becomes the value alone and
  the last run becomes empty, where prefix, value and suffix would give
  \<open>Hello Bob world\<close>.
\<close>

theorem prefix_and_suffix_are_lost:
  "str_find (full_text [\<lparr>run_text = ''Hello {{'', run_fmt = (1::nat)\<rparr>,
                        \<lparr>run_text = ''NAME'', run_fmt = 2\<rparr>,
                        \<lparr>run_text = ''}} world'', run_fmt = 3\<rparr>]) ''{{NAME}}'' = Some 6
   \<and> runs_to_modify [\<lparr>run_text = ''Hello {{'', run_fmt = (1::nat)\<rparr>,
                      \<lparr>run_text = ''NAME'', run_fmt = 2\<rparr>,
                      \<lparr>run_text = ''}} world'', run_fmt = 3\<rparr>] 6 14
       = [(First_loop, 0), (First_loop, 1), (First_loop, 2)]
   \<and> prefix_suffix [\<lparr>run_text = ''Hello {{'', run_fmt = (1::nat)\<rparr>,
                     \<lparr>run_text = ''NAME'', run_fmt = 2\<rparr>,
                     \<lparr>run_text = ''}} world'', run_fmt = 3\<rparr>] (First_loop, 0) (First_loop, 2) 6 14
       = ([], [])
   \<and> replace_pass [\<lparr>run_text = ''Hello {{'', run_fmt = (1::nat)\<rparr>,
                    \<lparr>run_text = ''NAME'', run_fmt = 2\<rparr>,
                    \<lparr>run_text = ''}} world'', run_fmt = 3\<rparr>] [(''{{NAME}}'', ''Bob'')]
       = Some [\<lparr>run_text = ''Bob'', run_fmt = 1\<rparr>,
               \<lparr>run_text = [], run_fmt = 2\<rparr>,
               \<lparr>run_text = [], run_fmt = 3\<rparr>]
   \<and> full_text [\<lparr>run_text = ''Bob'', run_fmt = (1::nat)\<rparr>,
                 \<lparr>run_text = [], run_fmt = 2\<rparr>,
                 \<lparr>run_text = [], run_fmt = 3\<rparr>] = ''Bob''
   \<and> replace_pass [\<lparr>run_text = ''Hello {{NAME}} world'', run_fmt = (1::nat)\<rparr>]
         [(''{{NAME}}'', ''Bob'')]
       = Some [\<lparr>run_text = ''Bob'', run_fmt = 1\<rparr>]"
  by code_simp

text \<open>
  C3: the call reaches every paragraph of the document: those of the body, those of the
  cells of its tables to any depth, and those of the header and the footer of every
  section. When the call returns, every paragraph of the result is the result of the loop
  on the paragraph at the same place of the input, and no key of the map other than the
  empty string occurs in its text. The call returns at least when some weighting of the
  characters makes every non-empty key heavier than its value.
\<close>

theorem replace_placeholders_reaches_every_paragraph:
  fixes w :: "char \<Rightarrow> nat"
  shows "(replace_in_block b ph = Some b' \<longrightarrow>
            list_all2 (\<lambda>p p'. replace_in_paragraph p ph = Some p')
              (block_paragraphs b) (block_paragraphs b'))
         \<and> (replace_placeholders doc ph = Some doc' \<longrightarrow>
            list_all2 (\<lambda>p p'. replace_in_paragraph p ph = Some p')
              (document_paragraphs doc) (document_paragraphs doc')
            \<and> (\<forall>p' \<in> set (document_paragraphs doc'). \<forall>(key, val) \<in> set ph.
                  key \<noteq> [] \<longrightarrow> str_find (full_text p') key = None))
         \<and> ((\<forall>(key, val) \<in> set ph. key \<noteq> [] \<longrightarrow> sum_list (map w val) < sum_list (map w key))
              \<longrightarrow> (\<exists>d. replace_placeholders doc ph = Some d))"
proof (intro conjI impI)
  assume "replace_in_block b ph = Some b'"
  then show "list_all2 (\<lambda>p p'. replace_in_paragraph p ph = Some p')
      (block_paragraphs b) (block_paragraphs b')"
    by (rule replace_in_block_paragraphs)
next
  assume r: "replace_placeholders doc ph = Some doc'"
  then show all: "list_all2 (\<lambda>p p'. replace_in_paragraph p ph = Some p')
      (document_paragraphs doc) (document_paragraphs doc')"
    by (rule replace_placeholders_paragraphs)
  show "\<forall>p' \<in> set (document_paragraphs doc'). \<forall>(key, val) \<in> set ph.
      key \<noteq> [] \<longrightarrow> str_find (full_text p') key = None"
  proof (intro ballI, clarify)
    fix p' key val
    assume "p' \<in> set (document_paragraphs doc')" and kv: "(key, val) \<in> set ph" and "key \<noteq> []"
    from list_all2_rightD [OF all this(1)] obtain p where "replace_in_paragraph p ph = Some p'"
      by blast
    then have "replace_pass p' ph = None" by (rule replace_in_paragraph_final)
    then have "skipped (full_text p') (key, val)" using kv by (simp add: replace_pass_None_iff)
    with \<open>key \<noteq> []\<close> show "str_find (full_text p') key = None" by (simp add: skipped_def)
  qed
next
  assume "\<forall>(key, val) \<in> set ph. key \<noteq> [] \<longrightarrow> sum_list (map w val) < sum_list (map w key)"
  then show "\<exists>d. replace_placeholders doc ph = Some d"
    by (intro replace_placeholders_total replace_in_paragraph_terminates)
qed

theorem replace_placeholders_reaches_every_paragraph_witness:
  "replace_placeholders example_document example_map = Some example_result
   \<and> document_paragraphs example_document
       = [[\<lparr>run_text = ''{{'', run_fmt = 1\<rparr>, \<lparr>run_text = ''N}}'', run_fmt = 2\<rparr>],
          [\<lparr>run_text = ''{{N}}'', run_fmt = 3\<rparr>],
          [\<lparr>run_text = ''H '', run_fmt = 4\<rparr>, \<lparr>run_text = ''{{N}}'', run_fmt = 5\<rparr>],
          [\<lparr>run_text = ''F '', run_fmt = 6\<rparr>, \<lparr>run_text = ''{{N}}'', run_fmt = 7\<rparr>]]
   \<and> list_all2 (\<lambda>p p'. replace_in_paragraph p example_map = Some p')
        (document_paragraphs example_document) (document_paragraphs example_result)
   \<and> map full_text (document_paragraphs example_result) = [''7'', ''7'', ''H 7'', ''F 7'']
   \<and> list_all (\<lambda>p'. str_find (full_text p') ''{{N}}'' = None) (document_paragraphs example_result)
   \<and> replace_in_block (body example_document) example_map = Some (body example_result)
   \<and> list_all2 (\<lambda>p p'. replace_in_paragraph p example_map = Some p')
        (block_paragraphs (body example_document)) (block_paragraphs (body example_result))
   \<and> (\<exists>d. replace_placeholders example_document example_map = Some d)"
proof -
  have rb: "replace_in_block (body example_document) example_map = Some (body example_result)"
    by code_simp
  have r: "replace_placeholders example_document example_map = Some example_result"
    by code_simp
  have ps: "document_paragraphs example_document
       = [[\<lparr>run_text = ''{{'', run_fmt = 1\<rparr>, \<lparr>run_text = ''N}}'', run_fmt = 2\<rparr>],
          [\<lparr>run_text = ''{{N}}'', run_fmt = 3\<rparr>],
          [\<lparr>run_text = ''H '', run_fmt = 4\<rparr>, \<lparr>run_text = ''{{N}}'', run_fmt = 5\<rparr>],
          [\<lparr>run_text = ''F '', run_fmt = 6\<rparr>, \<lparr>run_text = ''{{N}}'', run_fmt = 7\<rparr>]]"
    by (simp add: document_paragraphs_def example_document_def)
  have ts: "map full_text (document_paragraphs example_result)
      = [''7'', ''7'', ''H 7'', ''F 7'']"
    by (simp add: document_paragraphs_def example_result_def full_text_def)
  have w: "\<forall>(key, val) \<in> set example_map. key \<noteq> [] \<longrightarrow>
      sum_list (map (\<lambda>c. if c = CHR ''{'' then 1 else 0) val)
        < sum_list (map (\<lambda>c. if c = CHR ''{'' then 1 else (0::nat)) key)"
    by (simp add: example_map_def)
  from replace_placeholders_reaches_every_paragraph
    [of "body example_document" example_map "body example_result"
        example_document example_result "\<lambda>c. if c = CHR ''{'' then 1 else 0"] r rb w
  have "list_all2 (\<lambda>p p'. replace_in_paragraph p example_map = Some p')
        (block_paragraphs (body example_document)) (block_paragraphs (body example_result))"
    and "list_all2 (\<lambda>p p'. replace_in_paragraph p example_map = Some p')
        (document_paragraphs example_document) (document_paragraphs example_result)"
    and "\<forall>p' \<in> set (document_paragraphs example_result). \<forall>(key, val) \<in> set example_map.
                  key \<noteq> [] \<longrightarrow> str_find (full_text p') key = None"
    and "\<exists>d. replace_placeholders example_document example_map = Some d"
    by blast+
  then show ?thesis using r rb ps ts by (simp add: list_all_iff example_map_def)
qed

theorem replace_all_leaves_no_key_counterexample:
  "replace_placeholders \<lparr>body = Block [[\<lparr>run_text = ''a'', run_fmt = ()\<rparr>]] [], sections = []\<rparr>
     [('''', ''x'')]
     = Some \<lparr>body = Block [[\<lparr>run_text = ''a'', run_fmt = ()\<rparr>]] [], sections = []\<rparr>
   \<and> str_find (full_text [\<lparr>run_text = ''a'', run_fmt = ()\<rparr>]) '''' = Some 0
   \<and> replace_pass [\<lparr>run_text = ''A'', run_fmt = ()\<rparr>] [(''A'', ''A'')]
       = Some [\<lparr>run_text = ''A'', run_fmt = ()\<rparr>]
   \<and> replace_placeholders \<lparr>body = Block [[\<lparr>run_text = ''A'', run_fmt = ()\<rparr>]] [], sections = []\<rparr>
       [(''A'', ''A'')] = None"
proof -
  have p: "replace_pass [\<lparr>run_text = ''A'', run_fmt = ()\<rparr>] [(''A'', ''A'')]
       = Some [\<lparr>run_text = ''A'', run_fmt = ()\<rparr>]"
    by code_simp
  then have "replace_in_paragraph [\<lparr>run_text = ''A'', run_fmt = ()\<rparr>] [(''A'', ''A'')] = None"
    by (rule replace_in_paragraph_stuck)
  then have "replace_placeholders
      \<lparr>body = Block [[\<lparr>run_text = ''A'', run_fmt = ()\<rparr>]] [], sections = []\<rparr> [(''A'', ''A'')] = None"
    by (simp add: replace_placeholders_def)
  moreover have "replace_placeholders
      \<lparr>body = Block [[\<lparr>run_text = ''a'', run_fmt = ()\<rparr>]] [], sections = []\<rparr> [('''', ''x'')]
     = Some \<lparr>body = Block [[\<lparr>run_text = ''a'', run_fmt = ()\<rparr>]] [], sections = []\<rparr>"
    by code_simp
  moreover have "str_find (full_text [\<lparr>run_text = ''a'', run_fmt = ()\<rparr>]) '''' = Some 0"
    by code_simp
  ultimately show ?thesis using p by simp
qed

text \<open>
  C4: a paragraph with the two tokens \<open>{{A}}\<close> and \<open>{{B}}\<close> in one run. The first pass
  replaces the whole text of the run by the value of \<open>{{A}}\<close>, since prefix and suffix stay
  empty: the token \<open>{{B}}\<close> is deleted with the text around it, the second pass finds
  no token, and the loop ends after one replacement where two are due. The same happens
  when the first token lies across two runs and the second token follows in the last of
  them.
\<close>

theorem two_tokens_one_replacement:
  "str_find (full_text [\<lparr>run_text = ''{{A}} and {{B}}'', run_fmt = ()\<rparr>]) ''{{A}}'' = Some 0
   \<and> str_find (full_text [\<lparr>run_text = ''{{A}} and {{B}}'', run_fmt = ()\<rparr>]) ''{{B}}'' = Some 10
   \<and> str_find ''x'' ''{{A}}'' = None \<and> str_find ''x'' ''{{B}}'' = None
   \<and> str_find ''y'' ''{{A}}'' = None \<and> str_find ''y'' ''{{B}}'' = None
   \<and> replace_pass [\<lparr>run_text = ''{{A}} and {{B}}'', run_fmt = ()\<rparr>]
         [(''{{A}}'', ''x''), (''{{B}}'', ''y'')]
       = Some [\<lparr>run_text = ''x'', run_fmt = ()\<rparr>]
   \<and> replace_pass [\<lparr>run_text = ''x'', run_fmt = ()\<rparr>]
         [(''{{A}}'', ''x''), (''{{B}}'', ''y'')] = None
   \<and> replace_in_paragraph [\<lparr>run_text = ''{{A}} and {{B}}'', run_fmt = ()\<rparr>]
         [(''{{A}}'', ''x''), (''{{B}}'', ''y'')]
       = Some [\<lparr>run_text = ''x'', run_fmt = ()\<rparr>]
   \<and> replace_pass [\<lparr>run_text = ''Dear {{'', run_fmt = ()\<rparr>,
                    \<lparr>run_text = ''A}}, pay {{B}} now'', run_fmt = ()\<rparr>]
         [(''{{A}}'', ''Ann''), (''{{B}}'', ''5'')]
       = Some [\<lparr>run_text = ''Ann'', run_fmt = ()\<rparr>, \<lparr>run_text = [], run_fmt = ()\<rparr>]
   \<and> replace_pass [\<lparr>run_text = ''Ann'', run_fmt = ()\<rparr>, \<lparr>run_text = [], run_fmt = ()\<rparr>]
         [(''{{A}}'', ''Ann''), (''{{B}}'', ''5'')] = None
   \<and> replace_in_paragraph [\<lparr>run_text = ''Dear {{'', run_fmt = ()\<rparr>,
                    \<lparr>run_text = ''A}}, pay {{B}} now'', run_fmt = ()\<rparr>]
         [(''{{A}}'', ''Ann''), (''{{B}}'', ''5'')]
       = Some [\<lparr>run_text = ''Ann'', run_fmt = ()\<rparr>, \<lparr>run_text = [], run_fmt = ()\<rparr>]"
  by code_simp

text \<open>
  C5: when several keys occur in the text, the key taken in a pass is the first key in map
  order that occurs and is not empty (an empty key occurs at offset 0 and is passed
  over): the pass rewrites the runs collected for the first occurrence of that key, with
  the value of that key. After the replacement the loop goes on with the rewritten runs:
  the next pass concatenates them again and searches every key from the start of that
  text.
\<close>

theorem first_nonempty_key_in_map_order_wins:
  assumes "ph = pre @ (key, val) # post"
    and "\<forall>(k, v) \<in> set pre. k = [] \<or> str_find (full_text runs) k = None"
    and "key \<noteq> []"
    and "str_find (full_text runs) key = Some i"
  shows "\<exists>runs'. replace_pass runs ph = Some runs'
           \<and> runs' = rewrite_runs runs (runs_to_modify runs i (i + length key)) i (i + length key) val
           \<and> (\<forall>X K Y. runs = X @ K @ Y \<and> full_text K = key \<and> length (full_text X) = i
                 \<longrightarrow> (\<exists>K'. runs' = X @ K' @ Y \<and> full_text K' = val))
           \<and> replace_in_paragraph runs ph
               = (case replace_pass runs' ph of
                    None \<Rightarrow> Some runs'
                  | Some runs'' \<Rightarrow> replace_in_paragraph runs'' ph)"
proof -
  let ?r = "rewrite_runs runs (runs_to_modify runs i (i + length key)) i (i + length key) val"
  have p: "replace_pass runs ph = Some ?r" by (rule replace_pass_chosen [OF assms])
  have a: "\<forall>X K Y. runs = X @ K @ Y \<and> full_text K = key \<and> length (full_text X) = i
      \<longrightarrow> (\<exists>K'. ?r = X @ K' @ Y \<and> full_text K' = val)"
  proof (intro allI impI)
    fix X K Y
    assume "runs = X @ K @ Y \<and> full_text K = key \<and> length (full_text X) = i"
    then have r: "runs = X @ K @ Y" and k: "full_text K = key" and x: "length (full_text X) = i"
      by simp_all
    from x assms(4) have "str_find (full_text runs) key = Some (length (full_text X))" by simp
    from rewrite_runs_aligned [OF r k assms(3) this, of val] x
    show "\<exists>K'. ?r = X @ K' @ Y \<and> full_text K' = val" by auto
  qed
  have "replace_in_paragraph runs ph = replace_in_paragraph ?r ph"
    using p by (rule replace_in_paragraph_step)
  also have "\<dots> = (case replace_pass ?r ph of
                    None \<Rightarrow> Some ?r
                  | Some runs'' \<Rightarrow> replace_in_paragraph runs'' ph)"
    by (rule replace_in_paragraph.simps)
  finally show ?thesis using p a by blast
qed

theorem first_nonempty_key_in_map_order_wins_witness:
  "replace_pass [\<lparr>run_text = ''{{B}}'', run_fmt = (1::nat)\<rparr>, \<lparr>run_text = '' '', run_fmt = 2\<rparr>,
                 \<lparr>run_text = ''{{'', run_fmt = 3\<rparr>, \<lparr>run_text = ''A}}'', run_fmt = 4\<rparr>]
     [('''', ''e''), (''{{C}}'', ''c''), (''{{A}}'', ''x''), (''{{B}}'', ''y'')]
     = Some [\<lparr>run_text = ''{{B}}'', run_fmt = 1\<rparr>, \<lparr>run_text = '' '', run_fmt = 2\<rparr>,
             \<lparr>run_text = ''x'', run_fmt = 3\<rparr>, \<lparr>run_text = [], run_fmt = 4\<rparr>]
   \<and> replace_in_paragraph [\<lparr>run_text = ''{{B}}'', run_fmt = (1::nat)\<rparr>, \<lparr>run_text = '' '', run_fmt = 2\<rparr>,
                 \<lparr>run_text = ''{{'', run_fmt = 3\<rparr>, \<lparr>run_text = ''A}}'', run_fmt = 4\<rparr>]
       [('''', ''e''), (''{{C}}'', ''c''), (''{{A}}'', ''x''), (''{{B}}'', ''y'')]
     = (case replace_pass [\<lparr>run_text = ''{{B}}'', run_fmt = 1\<rparr>, \<lparr>run_text = '' '', run_fmt = 2\<rparr>,
             \<lparr>run_text = ''x'', run_fmt = 3\<rparr>, \<lparr>run_text = [], run_fmt = 4\<rparr>]
          [('''', ''e''), (''{{C}}'', ''c''), (''{{A}}'', ''x''), (''{{B}}'', ''y'')] of
          None \<Rightarrow> Some [\<lparr>run_text = ''{{B}}'', run_fmt = 1\<rparr>, \<lparr>run_text = '' '', run_fmt = 2\<rparr>,
             \<lparr>run_text = ''x'', run_fmt = 3\<rparr>, \<lparr>run_text = [], run_fmt = 4\<rparr>]
        | Some runs'' \<Rightarrow> replace_in_paragraph runs''
            [('''', ''e''), (''{{C}}'', ''c''), (''{{A}}'', ''x''), (''{{B}}'', ''y'')])
   \<and> (\<exists>K'. [\<lparr>run_text = ''{{B}}'', run_fmt = (1::nat)\<rparr>, \<lparr>run_text = '' '', run_fmt = 2\<rparr>,
             \<lparr>run_text = ''x'', run_fmt = 3\<rparr>, \<lparr>run_text = [], run_fmt = 4\<rparr>]
          = [\<lparr>run_text = ''{{B}}'', run_fmt = 1\<rparr>, \<lparr>run_text = '' '', run_fmt = 2\<rparr>] @ K' @ []
        \<and> full_text K' = ''x'')"
proof -
  let ?runs = "[\<lparr>run_text = ''{{B}}'', run_fmt = (1::nat)\<rparr>, \<lparr>run_text = '' '', run_fmt = 2\<rparr>,
                 \<lparr>run_text = ''{{'', run_fmt = 3\<rparr>, \<lparr>run_text = ''A}}'', run_fmt = 4\<rparr>]"
  let ?res = "[\<lparr>run_text = ''{{B}}'', run_fmt = (1::nat)\<rparr>, \<lparr>run_text = '' '', run_fmt = 2\<rparr>,
             \<lparr>run_text = ''x'', run_fmt = 3\<rparr>, \<lparr>run_text = [], run_fmt = 4\<rparr>]"
  let ?ph = "[('''', ''e''), (''{{C}}'', ''c''), (''{{A}}'', ''x''), (''{{B}}'', ''y'')]"
  have e: "replace_pass ?runs ?ph = Some ?res" by code_simp
  have t: "full_text ?runs = ''{{B}} {{A}}''" by (simp add: full_text_def)
  have f: "str_find (full_text ?runs) ''{{A}}'' = Some 6" by code_simp
  have c: "str_find (full_text ?runs) ''{{C}}'' = None" by code_simp
  have s: "\<forall>(k, v) \<in> set [('''', ''e''), (''{{C}}'', ''c'')].
      k = [] \<or> str_find (full_text ?runs) k = None"
    using c by simp
  from first_nonempty_key_in_map_order_wins
    [of ?ph "[('''', ''e''), (''{{C}}'', ''c'')]" "''{{A}}''" "''x''" "[(''{{B}}'', ''y'')]" ?runs 6,
     OF _ s _ f]
  obtain runs' where r: "replace_pass ?runs ?ph = Some runs'"
    and al: "\<forall>X K Y. ?runs = X @ K @ Y \<and> full_text K = ''{{A}}'' \<and> length (full_text X) = 6
        \<longrightarrow> (\<exists>K'. runs' = X @ K' @ Y \<and> full_text K' = ''x'')"
    and l: "replace_in_paragraph ?runs ?ph
        = (case replace_pass runs' ?ph of None \<Rightarrow> Some runs'
           | Some runs'' \<Rightarrow> replace_in_paragraph runs'' ?ph)"
    by auto
  from r e have eq: "runs' = ?res" by simp
  from al [rule_format, of "[\<lparr>run_text = ''{{B}}'', run_fmt = 1\<rparr>, \<lparr>run_text = '' '', run_fmt = 2\<rparr>]"
      "[\<lparr>run_text = ''{{'', run_fmt = 3\<rparr>, \<lparr>run_text = ''A}}'', run_fmt = 4\<rparr>]" "[]"]
  have "\<exists>K'. runs' = [\<lparr>run_text = ''{{B}}'', run_fmt = 1\<rparr>, \<lparr>run_text = '' '', run_fmt = 2\<rparr>] @ K' @ []
      \<and> full_text K' = ''x''"
    by (simp add: full_text_def)
  with e l show ?thesis unfolding eq by blast
qed

theorem first_key_that_occurs_counterexample:
  "str_find (full_text [\<lparr>run_text = ''A'', run_fmt = ()\<rparr>]) '''' = Some 0
   \<and> str_find (full_text [\<lparr>run_text = ''A'', run_fmt = ()\<rparr>]) ''A'' = Some 0
   \<and> replace_pass [\<lparr>run_text = ''A'', run_fmt = ()\<rparr>] [('''', ''x''), (''A'', ''y'')]
       = Some [\<lparr>run_text = ''y'', run_fmt = ()\<rparr>]"
  by code_simp

text \<open>
  C6: a pass, the loop of a paragraph, the walk of a block and the walk of the document
  change run texts only. With every text blanked the result equals the input: the same
  containers, tables, rows and cells, the same runs in the same order, the same
  formatting payloads, also for the runs whose text was emptied.
\<close>

theorem only_text_is_mutated:
  "(replace_pass runs ph = Some runs1 \<longrightarrow>
      length runs1 = length runs \<and> map run_fmt runs1 = map run_fmt runs
      \<and> erase_para runs1 = erase_para runs)
   \<and> (replace_in_paragraph runs ph = Some runs2 \<longrightarrow>
      length runs2 = length runs \<and> map run_fmt runs2 = map run_fmt runs
      \<and> erase_para runs2 = erase_para runs)
   \<and> (replace_in_block b ph = Some b' \<longrightarrow> erase_block b' = erase_block b)
   \<and> (replace_placeholders doc ph = Some doc' \<longrightarrow> erase_document doc' = erase_document doc)"
proof (intro conjI impI)
  assume p: "replace_pass runs ph = Some runs1"
  from replace_pass_fmt [OF p] show "map run_fmt runs1 = map run_fmt runs" .
  then show "erase_para runs1 = erase_para runs" by (rule erase_para_eqI)
  from replace_pass_fmt [OF p] show "length runs1 = length runs" by (rule map_eq_imp_length_eq)
next
  assume l: "replace_in_paragraph runs ph = Some runs2"
  from replace_in_paragraph_fmt [OF l] show "map run_fmt runs2 = map run_fmt runs" .
  then show "erase_para runs2 = erase_para runs" by (rule erase_para_eqI)
  from replace_in_paragraph_fmt [OF l] show "length runs2 = length runs"
    by (rule map_eq_imp_length_eq)
next
  assume "replace_in_block b ph = Some b'"
  then show "erase_block b' = erase_block b" by (rule replace_in_block_erase)
next
  assume "replace_placeholders doc ph = Some doc'"
  then show "erase_document doc' = erase_document doc" by (rule replace_placeholders_erase)
qed

theorem only_text_is_mutated_witness:
  "replace_placeholders example_document example_map = Some example_result
   \<and> erase_document example_result = erase_document example_document
   \<and> replace_in_block (body example_document) example_map = Some (body example_result)
   \<and> erase_block (body example_result) = erase_block (body example_document)
   \<and> replace_pass (hd (paragraphs (body example_document))) example_map
       = Some (hd (paragraphs (body example_result)))
   \<and> replace_in_paragraph (hd (paragraphs (body example_document))) example_map
       = Some (hd (paragraphs (body example_result)))
   \<and> map run_fmt (hd (paragraphs (body example_result))) = [1, 2]
   \<and> map run_fmt (hd (paragraphs (body example_document))) = [1, 2]"
proof -
  have d: "replace_placeholders example_document example_map = Some example_result"
    by code_simp
  have b: "replace_in_block (body example_document) example_map = Some (body example_result)"
    by code_simp
  have p: "replace_pass (hd (paragraphs (body example_document))) example_map
       = Some (hd (paragraphs (body example_result)))"
    by code_simp
  have l: "replace_in_paragraph (hd (paragraphs (body example_document))) example_map
       = Some (hd (paragraphs (body example_result)))"
    by code_simp
  have f: "map run_fmt (hd (paragraphs (body example_result))) = [1, 2]"
    by (simp add: example_result_def)
  from only_text_is_mutated
    [of "hd (paragraphs (body example_document))" example_map
        "hd (paragraphs (body example_result))" "hd (paragraphs (body example_result))"
        "body example_document" "body example_result" example_document example_result]
    d b p l f
  show ?thesis by simp
qed

text \<open>
  C7: when no key of the map occurs in the concatenated text of a paragraph, a pass
  replaces nothing (it ends with \<^verbatim>\<open>replaced = False\<close> without a write), and the loop
  returns the paragraph as it was.
\<close>

theorem no_occurrence_no_change:
  assumes "\<forall>(k, v) \<in> set ph. str_find (full_text runs) k = None"
  shows "replace_pass runs ph = None \<and> replace_in_paragraph runs ph = Some runs"
proof -
  from assms have "\<forall>kv \<in> set ph. skipped (full_text runs) kv"
    by (auto simp: skipped_def)
  then have "replace_pass runs ph = None" by (simp add: replace_pass_None_iff)
  then show ?thesis by (simp add: replace_in_paragraph_done)
qed

theorem no_occurrence_no_change_witness:
  "str_find ''Dear customer'' ''{{DATE}}'' = None
   \<and> replace_pass [\<lparr>run_text = ''Dear '', run_fmt = True\<rparr>, \<lparr>run_text = ''customer'', run_fmt = False\<rparr>]
        [(''{{DATE}}'', ''2025'')] = None
   \<and> replace_in_paragraph
        [\<lparr>run_text = ''Dear '', run_fmt = True\<rparr>, \<lparr>run_text = ''customer'', run_fmt = False\<rparr>]
        [(''{{DATE}}'', ''2025'')]
      = Some [\<lparr>run_text = ''Dear '', run_fmt = True\<rparr>, \<lparr>run_text = ''customer'', run_fmt = False\<rparr>]"
  using no_occurrence_no_change
    [of "[(''{{DATE}}'', ''2025'')]"
        "[\<lparr>run_text = ''Dear '', run_fmt = True\<rparr>, \<lparr>run_text = ''customer'', run_fmt = False\<rparr>]"]
  by (simp add: full_text_def)

text \<open>
  C8: when no value of the map contains a key of the map, the call returns, and a second
  call with the same map is a no-op: it returns the document of the first call, a pass
  replaces nothing in any of its paragraphs, and no key occurs in the text of any of them.
\<close>

theorem replace_placeholders_idempotent:
  assumes "\<forall>(key, val) \<in> set ph. \<forall>(key', val') \<in> set ph. str_find val' key = None"
  shows "\<exists>doc'. replace_placeholders doc ph = Some doc'
           \<and> replace_placeholders doc' ph = Some doc'
           \<and> (\<forall>p \<in> set (document_paragraphs doc').
                 replace_pass p ph = None
                 \<and> (\<forall>(key, val) \<in> set ph. str_find (full_text p) key = None))"
proof -
  have v: "str_find v' k = None" if "(k, v) \<in> set ph" "(k', v') \<in> set ph" for k v k' v'
  proof -
    from bspec [OF assms that(1)] have "\<forall>(k', v') \<in> set ph. str_find v' k = None" by simp
    from bspec [OF this that(2)] show ?thesis by simp
  qed
  have c: "\<forall>(k, v) \<in> set ph. \<forall>(k', v') \<in> set ph. k \<noteq> [] \<longrightarrow> str_find v' k = None"
  proof (intro ballI, clarify)
    fix k v k' v'
    assume "(k, v) \<in> set ph" "(k', v') \<in> set ph"
    then show "str_find v' k = None" by (rule v)
  qed
  have "\<exists>p'. replace_in_paragraph p ph = Some p'" for p :: "'a para"
    using c by (rule replace_in_paragraph_terminates_clean)
  then have "\<exists>doc'. replace_placeholders doc ph = Some doc'"
    by (rule replace_placeholders_total)
  then obtain doc' where r: "replace_placeholders doc ph = Some doc'" ..
  from r have 1: "replace_placeholders doc' ph = Some doc'" by (rule replace_placeholders_idem)
  have 2: "\<forall>p \<in> set (document_paragraphs doc').
      replace_pass p ph = None \<and> (\<forall>(key, val) \<in> set ph. str_find (full_text p) key = None)"
  proof
    fix p assume p: "p \<in> set (document_paragraphs doc')"
    from list_all2_rightD [OF replace_placeholders_paragraphs [OF r] p]
    obtain p0 where "replace_in_paragraph p0 ph = Some p" by blast
    then have n: "replace_pass p ph = None" by (rule replace_in_paragraph_final)
    have "\<forall>(key, val) \<in> set ph. str_find (full_text p) key = None"
    proof (intro ballI, clarify)
      fix key val
      assume kv: "(key, val) \<in> set ph"
      from kv kv have "str_find val key = None" by (rule v)
      then have "key \<noteq> []" by (auto simp: str_find_empty_key)
      moreover from n kv have "skipped (full_text p) (key, val)"
        by (simp add: replace_pass_None_iff)
      ultimately show "str_find (full_text p) key = None" by (simp add: skipped_def)
    qed
    with n show "replace_pass p ph = None
        \<and> (\<forall>(key, val) \<in> set ph. str_find (full_text p) key = None)" ..
  qed
  from r 1 2 show ?thesis by blast
qed

theorem replace_placeholders_idempotent_witness:
  "str_find ''7'' ''{{N}}'' = None
   \<and> replace_placeholders example_document example_map = Some example_result
   \<and> replace_placeholders example_result example_map = Some example_result
   \<and> replace_pass [\<lparr>run_text = ''7'', run_fmt = 1 :: nat\<rparr>, \<lparr>run_text = [], run_fmt = 2\<rparr>]
        example_map = None
   \<and> str_find (full_text [\<lparr>run_text = ''H '', run_fmt = 4 :: nat\<rparr>,
                           \<lparr>run_text = ''7'', run_fmt = 5\<rparr>]) ''{{N}}'' = None"
proof -
  have d: "replace_placeholders example_document example_map = Some example_result"
    by code_simp
  have s: "str_find ''7'' ''{{N}}'' = None" by code_simp
  have v: "\<forall>(key, val) \<in> set example_map. \<forall>(key', val') \<in> set example_map.
      str_find val' key = None"
    using s by (simp add: example_map_def)
  have k: "(''{{N}}'', ''7'') \<in> set example_map" by (simp add: example_map_def)
  have p: "[\<lparr>run_text = ''7'', run_fmt = 1 :: nat\<rparr>, \<lparr>run_text = [], run_fmt = 2\<rparr>]
      \<in> set (document_paragraphs example_result)"
    by (simp add: document_paragraphs_def example_result_def)
  have q: "[\<lparr>run_text = ''H '', run_fmt = 4 :: nat\<rparr>, \<lparr>run_text = ''7'', run_fmt = 5\<rparr>]
      \<in> set (document_paragraphs example_result)"
    by (simp add: document_paragraphs_def example_result_def)
  from replace_placeholders_idempotent [OF v, of example_document]
  obtain doc' where "replace_placeholders example_document example_map = Some doc'"
    and 1: "replace_placeholders doc' example_map = Some doc'"
    and 2: "\<forall>p \<in> set (document_paragraphs doc').
        replace_pass p example_map = None
        \<and> (\<forall>(key, val) \<in> set example_map. str_find (full_text p) key = None)"
    by blast
  with d have e: "doc' = example_result" by simp
  from 2 p have "replace_pass [\<lparr>run_text = ''7'', run_fmt = 1 :: nat\<rparr>, \<lparr>run_text = [], run_fmt = 2\<rparr>]
        example_map = None"
    unfolding e by blast
  moreover from 2 q k have "str_find (full_text [\<lparr>run_text = ''H '', run_fmt = 4 :: nat\<rparr>,
                           \<lparr>run_text = ''7'', run_fmt = 5\<rparr>]) ''{{N}}'' = None"
    unfolding e by blast
  ultimately show ?thesis using s d 1 unfolding e by blast
qed

text \<open>
  C9: after a replacement the loop goes on with the rewritten runs, so an occurrence that
  the replacement has created is in the text that the next pass searches. When the loop
  ends, a further pass finds nothing and no key of the map other than the empty string
  occurs in the text, whether the occurrence was there from the start or was created on
  the way. The loop ends at least when some weighting of the characters makes every
  non-empty key heavier than its value, which allows a value that contains another key.
\<close>

theorem loop_leaves_no_key:
  fixes w :: "char \<Rightarrow> nat"
  shows "(replace_pass runs ph = Some runs1 \<longrightarrow>
            replace_in_paragraph runs ph = replace_in_paragraph runs1 ph)
         \<and> (replace_in_paragraph runs ph = Some runs' \<longrightarrow>
              replace_pass runs' ph = None
              \<and> (\<forall>(key, val) \<in> set ph. key \<noteq> [] \<longrightarrow> str_find (full_text runs') key = None))
         \<and> ((\<forall>(key, val) \<in> set ph. key \<noteq> [] \<longrightarrow> sum_list (map w val) < sum_list (map w key))
              \<longrightarrow> (\<exists>r. replace_in_paragraph runs ph = Some r))"
proof (intro conjI impI)
  assume "replace_pass runs ph = Some runs1"
  then show "replace_in_paragraph runs ph = replace_in_paragraph runs1 ph"
    by (rule replace_in_paragraph_step)
next
  assume "replace_in_paragraph runs ph = Some runs'"
  then show n: "replace_pass runs' ph = None" by (rule replace_in_paragraph_final)
  show "\<forall>(key, val) \<in> set ph. key \<noteq> [] \<longrightarrow> str_find (full_text runs') key = None"
  proof clarify
    fix key val assume "(key, val) \<in> set ph" "key \<noteq> []"
    with n have "skipped (full_text runs') (key, val)" by (simp add: replace_pass_None_iff)
    with \<open>key \<noteq> []\<close> show "str_find (full_text runs') key = None" by (simp add: skipped_def)
  qed
next
  assume "\<forall>(key, val) \<in> set ph. key \<noteq> [] \<longrightarrow> sum_list (map w val) < sum_list (map w key)"
  then show "\<exists>r. replace_in_paragraph runs ph = Some r"
    by (rule replace_in_paragraph_terminates)
qed

theorem loop_leaves_no_key_witness:
  "replace_pass [\<lparr>run_text = ''{{'', run_fmt = True\<rparr>, \<lparr>run_text = ''A}}'', run_fmt = False\<rparr>]
     [(''{{A}}'', ''x{{B}}''), (''{{B}}'', ''y'')]
     = Some [\<lparr>run_text = ''x{{B}}'', run_fmt = True\<rparr>, \<lparr>run_text = [], run_fmt = False\<rparr>]
   \<and> str_find ''x{{B}}'' ''{{B}}'' = Some 1
   \<and> replace_in_paragraph [\<lparr>run_text = ''{{'', run_fmt = True\<rparr>, \<lparr>run_text = ''A}}'', run_fmt = False\<rparr>]
        [(''{{A}}'', ''x{{B}}''), (''{{B}}'', ''y'')]
      = replace_in_paragraph [\<lparr>run_text = ''x{{B}}'', run_fmt = True\<rparr>, \<lparr>run_text = [], run_fmt = False\<rparr>]
        [(''{{A}}'', ''x{{B}}''), (''{{B}}'', ''y'')]
   \<and> replace_in_paragraph [\<lparr>run_text = ''{{'', run_fmt = True\<rparr>, \<lparr>run_text = ''A}}'', run_fmt = False\<rparr>]
        [(''{{A}}'', ''x{{B}}''), (''{{B}}'', ''y'')]
      = Some [\<lparr>run_text = ''y'', run_fmt = True\<rparr>, \<lparr>run_text = [], run_fmt = False\<rparr>]
   \<and> str_find ''y'' ''{{A}}'' = None \<and> str_find ''y'' ''{{B}}'' = None
   \<and> (\<exists>r. replace_in_paragraph [\<lparr>run_text = ''{{'', run_fmt = True\<rparr>, \<lparr>run_text = ''A}}'', run_fmt = False\<rparr>]
        [(''{{A}}'', ''x{{B}}''), (''{{B}}'', ''y'')] = Some r)"
proof -
  let ?runs = "[\<lparr>run_text = ''{{'', run_fmt = True\<rparr>, \<lparr>run_text = ''A}}'', run_fmt = False\<rparr>]"
  let ?runs1 = "[\<lparr>run_text = ''x{{B}}'', run_fmt = True\<rparr>, \<lparr>run_text = [], run_fmt = False\<rparr>]"
  let ?runs2 = "[\<lparr>run_text = ''y'', run_fmt = True\<rparr>, \<lparr>run_text = [], run_fmt = False\<rparr>]"
  let ?ph = "[(''{{A}}'', ''x{{B}}''), (''{{B}}'', ''y'')]"
  let ?w = "\<lambda>c. if c = CHR ''A'' then 10 else (1::nat)"
  have p: "replace_pass ?runs ?ph = Some ?runs1" by code_simp
  have l: "replace_in_paragraph ?runs ?ph = Some ?runs2" by code_simp
  have w: "\<forall>(key, val) \<in> set ?ph. key \<noteq> [] \<longrightarrow> sum_list (map ?w val) < sum_list (map ?w key)"
    by simp
  have t: "full_text ?runs2 = ''y''" by (simp add: full_text_def)
  from loop_leaves_no_key [of ?runs ?ph ?runs1 ?runs2 ?w] p l w
  have "replace_in_paragraph ?runs ?ph = replace_in_paragraph ?runs1 ?ph"
    and "\<forall>(key, val) \<in> set ?ph. key \<noteq> [] \<longrightarrow> str_find (full_text ?runs2) key = None"
    and "\<exists>r. replace_in_paragraph ?runs ?ph = Some r"
    by blast+
  then show ?thesis using p l t by simp
qed

theorem created_occurrence_counterexample:
  "replace_pass [\<lparr>run_text = ''AB'', run_fmt = ()\<rparr>] [(''AB'', ''AB''), (''B'', ''x'')]
     = Some [\<lparr>run_text = ''AB'', run_fmt = ()\<rparr>]
   \<and> str_find (full_text [\<lparr>run_text = ''AB'', run_fmt = ()\<rparr>]) ''B'' = Some 1
   \<and> replace_in_paragraph [\<lparr>run_text = ''AB'', run_fmt = ()\<rparr>] [(''AB'', ''AB''), (''B'', ''x'')]
       = None
   \<and> replace_in_paragraph [\<lparr>run_text = ''a'', run_fmt = ()\<rparr>] [('''', ''x'')]
       = Some [\<lparr>run_text = ''a'', run_fmt = ()\<rparr>]
   \<and> str_find (full_text [\<lparr>run_text = ''a'', run_fmt = ()\<rparr>]) '''' = Some 0"
proof -
  have e: "replace_in_paragraph [\<lparr>run_text = ''a'', run_fmt = ()\<rparr>] [('''', ''x'')]
       = Some [\<lparr>run_text = ''a'', run_fmt = ()\<rparr>]"
    "str_find (full_text [\<lparr>run_text = ''a'', run_fmt = ()\<rparr>]) '''' = Some 0"
    by code_simp+
  have p: "replace_pass [\<lparr>run_text = ''AB'', run_fmt = ()\<rparr>] [(''AB'', ''AB''), (''B'', ''x'')]
     = Some [\<lparr>run_text = ''AB'', run_fmt = ()\<rparr>]"
    by code_simp
  moreover from p have "replace_in_paragraph [\<lparr>run_text = ''AB'', run_fmt = ()\<rparr>]
      [(''AB'', ''AB''), (''B'', ''x'')] = None"
    by (rule replace_in_paragraph_stuck)
  moreover have "str_find (full_text [\<lparr>run_text = ''AB'', run_fmt = ()\<rparr>]) ''B'' = Some 1"
    by code_simp
  ultimately show ?thesis using e by simp
qed

text \<open>
  C10: the empty string as a key is found at offset 0 of every text, its range \<open>[0, 0)\<close>
  collects no run, and the scan goes on to the next key. A pass and the loop with the
  map behave as with the map without its empty keys (the same result, and the loop ends
  in the one case exactly when it ends in the other); a map with the empty key alone
  changes nothing.
\<close>

theorem empty_key_is_skipped:
  "str_find s [] = Some 0
   \<and> runs_to_modify runs 0 (0 + length ([] :: string)) = []
   \<and> replace_pass runs (([], val) # rest) = replace_pass runs rest
   \<and> replace_pass runs ph = replace_pass runs (filter (\<lambda>(key, val). key \<noteq> []) ph)
   \<and> replace_in_paragraph runs ph
       = replace_in_paragraph runs (filter (\<lambda>(key, val). key \<noteq> []) ph)
   \<and> replace_in_paragraph runs [([], val)] = Some runs"
proof -
  have pass: "replace_pass rs ph = replace_pass rs (filter (\<lambda>(key, val). key \<noteq> []) ph)"
    for rs :: "'a para"
  proof (induction ph)
    case Nil
    then show ?case by simp
  next
    case (Cons kv ph)
    obtain k v where kv: "kv = (k, v)" by (cases kv)
    show ?case
    proof (cases "k = []")
      case True
      with Cons show ?thesis by (simp add: kv replace_pass_empty_key del: replace_pass.simps(2))
    next
      case False
      then show ?thesis
        by (simp add: kv Cons.IH [symmetric] Let_def split: option.splits)
    qed
  qed
  have "replace_in_paragraph runs ph
      = replace_in_paragraph runs (filter (\<lambda>(key, val). key \<noteq> []) ph)"
    by (rule replace_in_paragraph_cong) (rule pass)
  moreover have "replace_in_paragraph runs [([], val)] = Some runs"
    by (rule replace_in_paragraph_done) (simp add: replace_pass_empty_key del: replace_pass.simps(2))
  ultimately show ?thesis
    using pass [of runs]
    by (simp add: str_find_empty_key runs_to_modify_empty_range replace_pass_empty_key
        del: replace_pass.simps(2))
qed

end
